theory Spec2Isabelle
  imports Main "HOL-Library.Sublist"
begin

section \<open>Restore of backups (ee/backup/run.go)\<close>

text \<open>
  The development embeds \<^verbatim>\<open>run\<close>, \<^verbatim>\<open>runRestore\<close> and the closure that
  \<^verbatim>\<open>runRestore\<close> hands to \<^verbatim>\<open>Load\<close>. The storage engine (badger) and the Go
  standard library are not part of the repository: the engine is a record of functions
  (a parameter of every definition), the two library functions the code calls
  (\<^verbatim>\<open>fmt.Sprintf("p%d", _)\<close> and \<^verbatim>\<open>filepath.Join\<close>) are modelled from their
  documentation, for paths with the separator \<^verbatim>\<open>/\<close>. Go's \<^verbatim>\<open>int\<close> and
  \<^verbatim>\<open>uint64\<close> are \<open>int\<close> and \<open>nat\<close>: the code formats them and passes them on,
  and computes nothing with them.
\<close>

subsection \<open>Formatting integers: the verb \<^verbatim>\<open>%d\<close>\<close>

definition digit_char :: "nat \<Rightarrow> char" where
  "digit_char d = char_of (48 + d)"

definition is_digit :: "char \<Rightarrow> bool" where
  "is_digit c = (48 \<le> (of_char c :: nat) \<and> (of_char c :: nat) \<le> 57)"

definition digit_val :: "char \<Rightarrow> nat" where
  "digit_val c = of_char c - 48"

fun dec :: "nat \<Rightarrow> string" where
  "dec n = (if n < 10 then [digit_char n] else dec (n div 10) @ [digit_char (n mod 10)])"

declare dec.simps [simp del]

text \<open>\<^verbatim>\<open>%d\<close> of a signed integer: a minus sign, then the magnitude, no padding.\<close>

definition fmt_d :: "int \<Rightarrow> string" where
  "fmt_d i = (if i < 0 then CHR ''-'' # dec (nat (- i)) else dec (nat i))"

text \<open>Reading a digit string back (most significant digit first).\<close>

definition nat_of_digits :: "string \<Rightarrow> nat" where
  "nat_of_digits ds = foldl (\<lambda>acc c. 10 * acc + digit_val c) 0 ds"

subsection \<open>\<^verbatim>\<open>filepath.Join\<close> and \<^verbatim>\<open>filepath.Clean\<close>\<close>

text \<open>\<^verbatim>\<open>strings.Split(path, "/")\<close>: the pieces between separators, empty pieces kept.\<close>

fun split_sep :: "string \<Rightarrow> string list" where
  "split_sep [] = [[]]"
| "split_sep (c # cs) =
     (if c = CHR ''/'' then [] # split_sep cs
      else (case split_sep cs of [] \<Rightarrow> [[c]] | x # xs \<Rightarrow> (c # x) # xs))"

text \<open>
  One element of the path against the elements kept so far (the last kept element is
  the head of \<open>stk\<close>). Empty elements and \<^verbatim>\<open>.\<close> are dropped; \<^verbatim>\<open>..\<close> removes the
  element before it, is dropped at the root, and is kept at the start of a relative path.
\<close>

definition clean_push :: "bool \<Rightarrow> string list \<Rightarrow> string \<Rightarrow> string list" where
  "clean_push rooted stk c =
     (if c = [] \<or> c = ''.'' then stk
      else if c = ''..'' then
        (case stk of
           [] \<Rightarrow> (if rooted then [] else [''..''])
         | t # ts \<Rightarrow> (if t = ''..'' then c # stk else ts))
      else c # stk)"

fun join_sep :: "string list \<Rightarrow> string" where
  "join_sep [] = []"
| "join_sep [x] = x"
| "join_sep (x # y # ys) = x @ CHR ''/'' # join_sep (y # ys)"

definition filepath_Clean :: "string \<Rightarrow> string" where
  "filepath_Clean path =
     (let rooted = (case path of [] \<Rightarrow> False | c # _ \<Rightarrow> c = CHR ''/'');
          stk = foldl (clean_push rooted) [] (split_sep path);
          out = join_sep (rev stk)
      in if rooted then CHR ''/'' # out else if out = [] then ''.'' else out)"

text \<open>
  \<^verbatim>\<open>filepath.Join(a, b)\<close>: the elements from the first non-empty one on are joined
  with the separator and the result is cleaned; all elements empty gives the empty string.
\<close>

definition filepath_Join :: "string \<Rightarrow> string \<Rightarrow> string" where
  "filepath_Join a b =
     (if a \<noteq> [] then filepath_Clean (a @ CHR ''/'' # b)
      else if b \<noteq> [] then filepath_Clean b
      else [])"

subsection \<open>The storage engine, as the code sees it\<close>

datatype FileLoadingMode = FileIO | LoadToRAM | MemoryMap

text \<open>The fields of \<^verbatim>\<open>badger.Options\<close> that \<^verbatim>\<open>runRestore\<close> assigns.\<close>

record Options =
  Dir :: string
  ValueDir :: string
  SyncWrites :: bool
  TableLoadingMode :: FileLoadingMode
  ValueThreshold :: int
  NumVersionsToKeep :: int

definition MaxInt32 :: int where
  "MaxInt32 = 2147483647"

text \<open>
  Errors are values. \<open>EngineError\<close> stands for whatever the engine or a reader
  reports; the other constructors are the error kinds of the specification.
\<close>

datatype error =
    ResolutionError
  | CatalogError
  | EngineError string
  | ReplayError int nat error
  | RestoreFailed "(int \<times> error option) list"

text \<open>
  The engine: its default options, \<^verbatim>\<open>OpenManaged\<close> (from the options and what the
  directory \<open>Dir\<close> holds, \<open>None\<close> for a directory that does not exist, to an error
  or an open database), \<^verbatim>\<open>db.Load\<close> (the result and the database after it, which a
  failed load may have changed) and \<^verbatim>\<open>db.Close\<close> (what is left in the directory).
  A failed \<^verbatim>\<open>OpenManaged\<close> is taken to leave the directory as it was.
\<close>

record ('r, 'db) engine =
  DefaultOptions :: Options
  OpenManaged :: "Options \<Rightarrow> 'db option \<Rightarrow> error + 'db"
  db_Load :: "'r \<Rightarrow> 'db \<Rightarrow> error option \<times> 'db"
  db_Close :: "'db \<Rightarrow> 'db"

text \<open>The calls made to the engine, in order.\<close>

datatype event =
    EvOpen Options bool
  | EvLoad string bool
  | EvClose string

text \<open>
  What reaches standard error: an error that the command prints, or the report of a
  panic that the runtime prints when the panic leaves the program.
\<close>

datatype stderr_line = ErrorLine error | PanicLine string

text \<open>
  The world a run acts on: the lines written to standard output, what was written to
  standard error, the database directories, and the engine calls made so far.
\<close>

record 'db world =
  stdout :: "string list"
  stderr :: "stderr_line list"
  fs :: "string \<Rightarrow> 'db option"
  events :: "event list"

definition Println :: "string \<Rightarrow> 'db world \<Rightarrow> 'db world" where
  "Println line w = w\<lparr>stdout := stdout w @ [line]\<rparr>"

definition emit :: "event \<Rightarrow> 'db world \<Rightarrow> 'db world" where
  "emit ev w = w\<lparr>events := events w @ [ev]\<rparr>"

subsection \<open>\<^verbatim>\<open>runRestore\<close>\<close>

text \<open>The name of a group's directory: \<^verbatim>\<open>fmt.Sprintf("p%d", groupId)\<close>.\<close>

definition Sprintf_p :: "int \<Rightarrow> string" where
  "Sprintf_p groupId = CHR ''p'' # fmt_d groupId"

text \<open>The options the closure builds (lines 124 to 130), assignment by assignment.\<close>

definition restore_options :: "Options \<Rightarrow> string \<Rightarrow> int \<Rightarrow> Options" where
  "restore_options defaults pdir groupId =
     (let bo = defaults;
          bo = bo\<lparr>SyncWrites := True\<rparr>;
          bo = bo\<lparr>TableLoadingMode := MemoryMap\<rparr>;
          bo = bo\<lparr>ValueThreshold := 2 ^ 10\<rparr>;
          bo = bo\<lparr>NumVersionsToKeep := MaxInt32\<rparr>;
          bo = bo\<lparr>Dir := filepath_Join pdir (Sprintf_p groupId)\<rparr>;
          bo = bo\<lparr>ValueDir := Dir bo\<rparr>
      in bo)"

text \<open>
  The closure passed to \<^verbatim>\<open>Load\<close> (lines 122 to 138), called with a reader and a
  group id. The deferred \<^verbatim>\<open>db.Close()\<close> runs when the closure returns after a
  successful open, whatever \<^verbatim>\<open>db.Load\<close> returned; its own result is dropped. The
  three engine functions are taken to return.
\<close>

definition restore_fn ::
  "('r, 'db) engine \<Rightarrow> string \<Rightarrow> nat \<Rightarrow> 'r \<Rightarrow> int \<Rightarrow> 'db world \<Rightarrow> error option \<times> 'db world" where
  "restore_fn eng pdir since r groupId w =
     (let w = Println (''--- Restoring groupId: '' @ fmt_d groupId @ '', since: '' @ dec since) w;
          bo = restore_options (DefaultOptions eng) pdir groupId
      in case OpenManaged eng bo (fs w (Dir bo)) of
           Inl err \<Rightarrow> (Some err, emit (EvOpen bo False) w)
         | Inr db \<Rightarrow>
             (let w = emit (EvOpen bo True) w;
                  w = Println (''--- Creating new db: '' @ Dir bo) w;
                  (res, db) = db_Load eng r db;
                  w = emit (EvLoad (Dir bo) (res = None)) w;
                  w = emit (EvClose (Dir bo)) (w\<lparr>fs := (fs w)(Dir bo := Some (db_Close eng db))\<rparr>)
              in (res, w)))"

text \<open>
  A call either returns a value or panics. A panic is not an error value: it unwinds the
  callers, running their deferred functions, and ends the process unless it is recovered;
  nothing in this file recovers.
\<close>

datatype 'a go_result = Returns 'a | Panics string

text \<open>
  \<^verbatim>\<open>Load\<close> is not in this file: \<^verbatim>\<open>runRestore\<close> takes it as a parameter. A
  \<open>loader\<close> is a \<^verbatim>\<open>Load\<close> that always returns; a \<open>go_loader\<close> is one in which a
  panic may be raised, by \<^verbatim>\<open>Load\<close> itself or by what it calls. \<^verbatim>\<open>runRestore\<close> hands
  on what \<^verbatim>\<open>Load\<close> gives, a return or a panic, so the kind of result is left open in
  its type.
\<close>

type_synonym ('r, 'db) loadFn = "'r \<Rightarrow> int \<Rightarrow> 'db world \<Rightarrow> error option \<times> 'db world"

type_synonym ('r, 'db) loader =
  "string \<Rightarrow> nat \<Rightarrow> ('r, 'db) loadFn \<Rightarrow> 'db world \<Rightarrow> error option \<times> 'db world"

type_synonym ('r, 'db) go_loader =
  "string \<Rightarrow> nat \<Rightarrow> ('r, 'db) loadFn \<Rightarrow> 'db world \<Rightarrow> error option go_result \<times> 'db world"

definition runRestore ::
  "('r, 'db) engine \<Rightarrow> (string \<Rightarrow> nat \<Rightarrow> ('r, 'db) loadFn \<Rightarrow> 'db world \<Rightarrow> 'res)
     \<Rightarrow> string \<Rightarrow> string \<Rightarrow> nat \<Rightarrow> 'db world \<Rightarrow> 'res" where
  "runRestore eng Load pdir location since w = Load location since (restore_fn eng pdir since) w"

text \<open>A loader that always returns, as a loader that may panic.\<close>

definition returning :: "('r, 'db) loader \<Rightarrow> ('r, 'db) go_loader" where
  "returning ld location since fn w = (case ld location since fn w of (err, w) \<Rightarrow> (Returns err, w))"

subsection \<open>\<^verbatim>\<open>run\<close> and the command\<close>

record opt =
  opt_location :: string
  opt_pdir :: string
  opt_since :: nat

text \<open>
  \<^verbatim>\<open>run\<close> (lines 104 to 116): \<open>elapsed\<close> is the rendering of
  \<^verbatim>\<open>time.Since(start).Round(time.Second)\<close>, read from the clock when the deferred
  function runs. The deferred function tests the named result \<^verbatim>\<open>err\<close>. When
  \<^verbatim>\<open>runRestore\<close> returns, the \<^verbatim>\<open>return\<close> statement has assigned its value to
  \<^verbatim>\<open>err\<close> before the deferred function runs. When \<^verbatim>\<open>runRestore\<close> panics, the
  \<^verbatim>\<open>return\<close> statement never completes: the deferred function runs while the panic
  unwinds, \<^verbatim>\<open>err\<close> still holds nil, the line is printed, and the panic goes on to the
  caller.
\<close>

definition run ::
  "('r, 'db) engine \<Rightarrow> ('r, 'db) go_loader \<Rightarrow> opt \<Rightarrow> string \<Rightarrow> 'db world
     \<Rightarrow> error option go_result \<times> 'db world" where
  "run eng Load opt elapsed w =
     (let w = Println (''Restoring backups from: '' @ opt_location opt) w;
          w = Println (''Writing postings to: '' @ opt_pdir opt) w
      in case runRestore eng Load (opt_pdir opt) (opt_location opt) (opt_since opt) w of
           (Returns err, w) \<Rightarrow>
             (Returns err, if err = None then Println (''Restore: Time elapsed: '' @ elapsed) w else w)
         | (Panics msg, w) \<Rightarrow>
             (Panics msg, Println (''Restore: Time elapsed: '' @ elapsed) w))"

text \<open>
  The command's \<^verbatim>\<open>Run\<close> function (lines 84 to 90): an error that \<^verbatim>\<open>run\<close> returns
  goes to standard error and the process exits with status 1; when \<^verbatim>\<open>run\<close> returns
  nil the function returns and the status is 0; a panic that comes out of \<^verbatim>\<open>run\<close>
  passes through \<^verbatim>\<open>Run\<close>, the runtime reports it on standard error and the process
  exits with status 2. The profiling hook that \<^verbatim>\<open>Run\<close> defers is left out.
\<close>

definition Cmd_Run ::
  "('r, 'db) engine \<Rightarrow> ('r, 'db) go_loader \<Rightarrow> opt \<Rightarrow> string \<Rightarrow> 'db world \<Rightarrow> nat \<times> 'db world" where
  "Cmd_Run eng Load opt elapsed w =
     (case run eng Load opt elapsed w of
        (Returns (Some err), w) \<Rightarrow> (1, w\<lparr>stderr := stderr w @ [ErrorLine err]\<rparr>)
      | (Returns None, w) \<Rightarrow> (0, w)
      | (Panics msg, w) \<Rightarrow> (2, w\<lparr>stderr := stderr w @ [PanicLine msg]\<rparr>))"

subsection \<open>Reading the calls made to the engine\<close>

fun event_dir :: "event \<Rightarrow> string" where
  "event_dir (EvOpen bo ok) = Dir bo"
| "event_dir (EvLoad d ok) = d"
| "event_dir (EvClose d) = d"

text \<open>The directories whose database is open after a sequence of engine calls.\<close>

fun track_open :: "string list \<Rightarrow> event \<Rightarrow> string list" where
  "track_open acc (EvOpen bo ok) = (if ok then Dir bo # acc else acc)"
| "track_open acc (EvLoad d ok) = acc"
| "track_open acc (EvClose d) = remove1 d acc"

definition open_instances :: "event list \<Rightarrow> string list" where
  "open_instances evs = foldl track_open [] evs"

text \<open>A path element that \<^verbatim>\<open>filepath.Clean\<close> keeps as it is.\<close>

definition simple_name :: "string \<Rightarrow> bool" where
  "simple_name n = (n \<noteq> [] \<and> n \<noteq> ''.'' \<and> n \<noteq> ''..'' \<and> CHR ''/'' \<notin> set n)"

text \<open>
  An engine that refuses to open with options that do not satisfy \<open>ok\<close>, and is the
  given engine otherwise.
\<close>

definition require_options :: "(Options \<Rightarrow> bool) \<Rightarrow> ('r, 'db) engine \<Rightarrow> ('r, 'db) engine" where
  "require_options ok eng =
     eng\<lparr>OpenManaged := (\<lambda>bo d. if ok bo then OpenManaged eng bo d
                                 else Inl (EngineError ''options refused''))\<rparr>"



subsection \<open>A small engine to run the definitions on\<close>

text \<open>
  A database is the list of records loaded so far and a reader is a list of records.
  Opening a directory that exists gives the database it holds, as opening a directory of
  the engine does; a record \<open>0\<close> makes the load fail after the records before it.
\<close>

definition demo_defaults :: Options where
  "demo_defaults = \<lparr>Dir = [], ValueDir = [], SyncWrites = False, TableLoadingMode = LoadToRAM,
     ValueThreshold = 32, NumVersionsToKeep = 1\<rparr>"

definition demo_engine :: "(nat list, nat list) engine" where
  "demo_engine = \<lparr>DefaultOptions = demo_defaults,
     OpenManaged = (\<lambda>bo d. Inr (case d of None \<Rightarrow> [] | Some db \<Rightarrow> db)),
     db_Load = (\<lambda>r db. if 0 \<in> set r
                        then (Some (EngineError ''bad record''), db @ takeWhile (\<lambda>x. x \<noteq> 0) r)
                        else (None, db @ r)),
     db_Close = (\<lambda>db. db)\<rparr>"

definition world0 :: "nat list world" where
  "world0 = \<lparr>stdout = [], stderr = [], fs = (\<lambda>_. None), events = []\<rparr>"



text \<open>
  An engine that needs synchronous writes and the full history to open, and whose close
  marks the database with the record 99.
\<close>

definition strict_engine :: "(nat list, nat list) engine" where
  "strict_engine = \<lparr>DefaultOptions = demo_defaults,
     OpenManaged = (\<lambda>bo d. if SyncWrites bo \<and> NumVersionsToKeep bo = MaxInt32
                              then Inr (case d of None \<Rightarrow> [] | Some db \<Rightarrow> db)
                              else Inl (EngineError ''unsafe options'')),
     db_Load = (\<lambda>r db. if 0 \<in> set r
                        then (Some (EngineError ''bad record''), db @ takeWhile (\<lambda>x. x \<noteq> 0) r)
                        else (None, db @ r)),
     db_Close = (\<lambda>db. db @ [99])\<rparr>"

text \<open>
  A loader in which a panic is raised before any object is loaded, as when the engine
  panics on a stream that is not a backup.
\<close>

definition load_panics :: "(nat list, nat list) go_loader" where
  "load_panics location since fn w = (Panics ''runtime error'', w)"

text \<open>A loader that calls the closure once, for group 1, and the options of a run.\<close>

definition load_once :: "nat list \<Rightarrow> (nat list, nat list) loader" where
  "load_once r location since fn w = fn r 1 w"

definition demo_opt :: opt where
  "demo_opt = \<lparr>opt_location = ''/backups'', opt_pdir = ''/d'', opt_since = 0\<rparr>"

section \<open>The catalog, the planner and \<^verbatim>\<open>Load\<close>\<close>

subsection \<open>Object names\<close>

text \<open>
  Modelled from the spec: the parser of object names is part of \<^verbatim>\<open>Load\<close>, which is not
  among the sources. The grammar is \<^verbatim>\<open>r<timestamp>-g<groupID>.<ext>\<close>, both numbers
  non-negative and in base 10, the extension accepted and ignored. A number is a
  non-empty run of digits.
\<close>

definition take_number :: "string \<Rightarrow> (nat \<times> string) option" where
  "take_number s =
     (let ds = takeWhile is_digit s
      in if ds = [] then None else Some (nat_of_digits ds, dropWhile is_digit s))"

text \<open>
  Modelled from the spec: parsing a name to the pair (timestamp, group id), by the
  grammar above; \<open>None\<close> for a name that does not match.
\<close>

definition parse_name :: "string \<Rightarrow> (nat \<times> nat) option" where
  "parse_name name =
     (case name of
        [] \<Rightarrow> None
      | c # s1 \<Rightarrow>
          if c \<noteq> CHR ''r'' then None
          else (case take_number s1 of
                  None \<Rightarrow> None
                | Some (t, s2) \<Rightarrow>
                    (case s2 of
                       a # b # s3 \<Rightarrow>
                         if a \<noteq> CHR ''-'' \<or> b \<noteq> CHR ''g'' then None
                         else (case take_number s3 of
                                 None \<Rightarrow> None
                               | Some (g, s4) \<Rightarrow>
                                   (case s4 of
                                      [] \<Rightarrow> None
                                    | d # ext \<Rightarrow> if d = CHR ''.'' then Some (t, g) else None))
                     | _ \<Rightarrow> None)))"

text \<open>
  Modelled from the spec: the canonical name of the pair (timestamp, group id), with
  the extension of the spec's example \<^verbatim>\<open>r32-g2.backup\<close>.
\<close>

definition format_name :: "nat \<times> nat \<Rightarrow> string" where
  "format_name p = CHR ''r'' # dec (fst p) @ ''-g'' @ dec (snd p) @ ''.backup''"

subsection \<open>Backup Catalog\<close>

text \<open>
  Modelled from the spec: a BackupObject and the BackupCatalog of section 3, the catalog
  as the list of its groups, each with its sequence of objects.
\<close>

record 'r BackupObject =
  groupID :: nat
  readTimestamp :: nat
  byteStream :: 'r

type_synonym 'r catalog = "(nat \<times> 'r BackupObject list) list"

text \<open>
  Modelled from the spec: the listing of a location is the list of its object names,
  each with the stream that opening it gives. Names that do not match the grammar are
  skipped.
\<close>

definition parse_objects :: "(string \<times> 'r) list \<Rightarrow> 'r BackupObject list" where
  "parse_objects listing =
     List.map_filter
       (\<lambda>(name, r). map_option (\<lambda>(t, g). \<lparr>groupID = g, readTimestamp = t, byteStream = r\<rparr>)
                       (parse_name name))
       listing"

text \<open>Modelled from the spec: the pair that no two objects of a catalog may share.\<close>

definition object_key :: "'r BackupObject \<Rightarrow> nat \<times> nat" where
  "object_key obj = (groupID obj, readTimestamp obj)"

text \<open>
  Modelled from the spec: \<^verbatim>\<open>enumerate\<close> of the Backup Catalog (section 4.2). No
  matching object and a repeated pair (group id, timestamp) are a \<open>CatalogError\<close>;
  otherwise the objects are grouped by group id and each group is sorted by timestamp.
  The groups are listed by ascending group id.
\<close>

definition enumerate_catalog :: "(string \<times> 'r) list \<Rightarrow> error + 'r catalog" where
  "enumerate_catalog listing =
     (let objs = parse_objects listing
      in if objs = [] then Inl CatalogError
         else if \<not> distinct (map object_key objs) then Inl CatalogError
         else Inr (map (\<lambda>g. (g, sort_key readTimestamp (filter (\<lambda>obj. groupID obj = g) objs)))
                       (sort (remdups (map groupID objs)))))"

subsection \<open>Restore Planner\<close>

text \<open>
  Modelled from the spec: \<^verbatim>\<open>plan\<close> of the Restore Planner (section 4.3). Each group
  keeps its objects with a timestamp above the watermark, in the catalog's order.
\<close>

definition plan :: "'r catalog \<Rightarrow> nat \<Rightarrow> 'r catalog" where
  "plan catalog since =
     map (\<lambda>(g, objs). (g, filter (\<lambda>obj. since < readTimestamp obj) objs)) catalog"

subsection \<open>Replay and \<^verbatim>\<open>Load\<close>\<close>

text \<open>
  Modelled from the spec: the replay of one group (section 4.4), through the closure
  that \<^verbatim>\<open>Load\<close> receives, called once for each object in order. The first failure
  ends the group's replay with a \<open>ReplayError\<close> that carries the group id and the
  timestamp of the failing object.
\<close>

fun replay :: "('r, 'db) loadFn \<Rightarrow> nat \<Rightarrow> 'r BackupObject list \<Rightarrow> 'db world
    \<Rightarrow> error option \<times> 'db world" where
  "replay fn g [] w = (None, w)"
| "replay fn g (obj # objs) w =
     (case fn (byteStream obj) (int g) w of
        (Some err, w') \<Rightarrow> (Some (ReplayError (int g) (readTimestamp obj) err), w')
      | (None, w') \<Rightarrow> replay fn g objs w')"

text \<open>
  Modelled from the spec: the Orchestrator's loop (section 4.5). Every group with a
  non-empty plan is replayed and its outcome collected; a group with an empty plan is
  skipped; a failed group does not stop the groups after it.
\<close>

fun replay_all :: "('r, 'db) loadFn \<Rightarrow> 'r catalog \<Rightarrow> 'db world
    \<Rightarrow> (int \<times> error option) list \<times> 'db world" where
  "replay_all fn [] w = ([], w)"
| "replay_all fn ((g, objs) # rest) w =
     (if objs = [] then replay_all fn rest w
      else (let (out, w) = replay fn g objs w;
                (outs, w) = replay_all fn rest w
            in ((int g, out) # outs, w)))"

text \<open>
  Modelled from the spec: the groups that the Orchestrator's loop replays, those with a
  non-empty plan, in order.
\<close>

definition planned_groups :: "'r catalog \<Rightarrow> nat list" where
  "planned_groups pl = map fst (filter (\<lambda>(g, objs). objs \<noteq> []) pl)"

text \<open>The directory that the closure derives for a group of the catalog.\<close>

definition group_dir :: "string \<Rightarrow> nat \<Rightarrow> string" where
  "group_dir pdir g = filepath_Join pdir (Sprintf_p (int g))"

text \<open>
  Modelled from the spec: \<^verbatim>\<open>Load\<close>, which \<^verbatim>\<open>runRestore\<close> calls and which is not among
  the sources. \<open>resolve\<close> is the Location Resolver followed by the listing of the
  location. Resolution and catalog errors end the run before any group is replayed;
  otherwise the result is success when every replayed group succeeded and else an error
  that lists the outcome of every replayed group.
\<close>

definition Load :: "(string \<Rightarrow> error + (string \<times> 'r) list) \<Rightarrow> ('r, 'db) loader" where
  "Load resolve location since fn w =
     (case resolve location of
        Inl err \<Rightarrow> (Some err, w)
      | Inr listing \<Rightarrow>
          (case enumerate_catalog listing of
             Inl err \<Rightarrow> (Some err, w)
           | Inr catalog \<Rightarrow>
               (let (outs, w) = replay_all fn (plan catalog since) w
                in (if list_all (\<lambda>(g, out). out = None) outs then None
                    else Some (RestoreFailed outs), w))))"

text \<open>The spec's example location, with readers for the small engine.\<close>

definition demo_listing :: "(string \<times> nat list) list" where
  "demo_listing =
     [(''r10-g1.backup'', [1, 2]), (''manifest.json'', []), (''r25-g1.backup'', [3, 0, 4]),
      (''r15-g2.backup'', [5])]"

definition demo_catalog :: "nat list catalog" where
  "demo_catalog =
     [(1, [\<lparr>groupID = 1, readTimestamp = 10, byteStream = [1, 2]\<rparr>,
           \<lparr>groupID = 1, readTimestamp = 25, byteStream = [3, 0, 4]\<rparr>]),
      (2, [\<lparr>groupID = 2, readTimestamp = 15, byteStream = [5]\<rparr>])]"

definition demo_resolve :: "string \<Rightarrow> error + (string \<times> nat list) list" where
  "demo_resolve location = (if location = ''/backups'' then Inr demo_listing else Inl ResolutionError)"

section \<open>Properties of the formatting and path functions\<close>

lemma digit_char_is_digit: "d < 10 \<Longrightarrow> is_digit (digit_char d)"
  by (simp add: is_digit_def digit_char_def)

lemma digit_val_digit_char: "d < 10 \<Longrightarrow> digit_val (digit_char d) = d"
  by (simp add: digit_val_def digit_char_def)

lemma dec_digits: "c \<in> set (dec n) \<Longrightarrow> is_digit c"
proof (induction n rule: dec.induct)
  case (1 n)
  then show ?case
    by (subst (asm) (2) dec.simps) (auto simp: digit_char_is_digit split: if_splits)
qed

lemma dec_nonempty: "dec n \<noteq> []"
  by (subst dec.simps) simp

lemma nat_of_digits_snoc: "nat_of_digits (ds @ [c]) = 10 * nat_of_digits ds + digit_val c"
  by (simp add: nat_of_digits_def)

lemma nat_of_digits_dec: "nat_of_digits (dec n) = n"
proof (induction n rule: dec.induct)
  case (1 n)
  show ?case
  proof (cases "n < 10")
    case True
    then show ?thesis
      by (subst dec.simps) (simp add: nat_of_digits_def digit_val_digit_char)
  next
    case False
    then have "nat_of_digits (dec n) = 10 * nat_of_digits (dec (n div 10)) + digit_val (digit_char (n mod 10))"
      by (subst dec.simps) (simp add: nat_of_digits_snoc)
    also have "\<dots> = 10 * (n div 10) + n mod 10"
      using 1 False by (simp add: digit_val_digit_char)
    finally show ?thesis by simp
  qed
qed

lemma dec_inj: "dec m = dec n \<Longrightarrow> m = n"
  by (metis nat_of_digits_dec)

lemma dec_hd_digit: "is_digit (hd (dec n))"
  using dec_digits [of "hd (dec n)" n] dec_nonempty [of n] by simp

lemma minus_not_digit: "\<not> is_digit (CHR ''-'')"
  by (simp add: is_digit_def)

lemma fmt_d_inj: "fmt_d i = fmt_d j \<Longrightarrow> i = j"
proof -
  assume eq: "fmt_d i = fmt_d j"
  have neg: "dec a \<noteq> CHR ''-'' # ds" for a ds
    using dec_hd_digit [of a] minus_not_digit by (cases "dec a") auto
  show ?thesis
  proof (cases "i < 0"; cases "j < 0")
    assume "i < 0" "j < 0"
    with eq have "nat (- i) = nat (- j)" by (auto simp: fmt_d_def dest: dec_inj)
    with \<open>i < 0\<close> \<open>j < 0\<close> show ?thesis by simp
  next
    assume "i < 0" "\<not> j < 0"
    with eq neg [of "nat j" "dec (nat (- i))"] show ?thesis by (auto simp: fmt_d_def)
  next
    assume "\<not> i < 0" "j < 0"
    with eq neg [of "nat i"] show ?thesis by (auto simp: fmt_d_def)
  next
    assume "\<not> i < 0" "\<not> j < 0"
    with eq have "nat i = nat j" by (auto simp: fmt_d_def dest: dec_inj)
    with \<open>\<not> i < 0\<close> \<open>\<not> j < 0\<close> show ?thesis by simp
  qed
qed

lemma dec_no_leading_zero: "0 < n \<Longrightarrow> hd (dec n) \<noteq> CHR ''0''"
proof (induction n rule: dec.induct)
  case (1 n)
  show ?case
  proof (cases "n < 10")
    case True
    have "digit_val (digit_char n) = n" using True by (rule digit_val_digit_char)
    moreover have "digit_val (CHR ''0'') = 0" by (simp add: digit_val_def)
    ultimately have "digit_char n \<noteq> CHR ''0''" using \<open>0 < n\<close> by auto
    then show ?thesis using True by (subst dec.simps) simp
  next
    case False
    then have "0 < n div 10" by simp
    with 1 False have "hd (dec (n div 10)) \<noteq> CHR ''0''" by simp
    then show ?thesis using False dec_nonempty [of "n div 10"]
      by (subst dec.simps) simp
  qed
qed

lemma split_sep_nonempty: "split_sep s \<noteq> []"
  by (induction s) (auto split: list.splits)

lemma split_sep_append: "split_sep (a @ CHR ''/'' # b) = split_sep a @ split_sep b"
proof (induction a)
  case Nil
  show ?case by simp
next
  case (Cons c a)
  obtain x xs where "split_sep a = x # xs"
    using split_sep_nonempty [of a] by (cases "split_sep a") auto
  with Cons show ?case by simp
qed

lemma split_sep_simple: "CHR ''/'' \<notin> set n \<Longrightarrow> split_sep n = [n]"
  by (induction n) auto

lemma join_sep_snoc: "join_sep (xs @ [n]) = (if xs = [] then n else join_sep xs @ CHR ''/'' # n)"
  by (induction xs rule: join_sep.induct) auto

lemma clean_push_simple: "simple_name n \<Longrightarrow> clean_push rooted stk n = n # stk"
  by (auto simp: clean_push_def simple_name_def)

lemma filepath_Clean_simple: "simple_name n \<Longrightarrow> filepath_Clean n = n"
  by (cases n) (auto simp: filepath_Clean_def simple_name_def split_sep_simple clean_push_def)

lemma filepath_Clean_snoc:
  assumes "a \<noteq> []"
  shows "\<exists>pre. \<forall>n. simple_name n \<longrightarrow> filepath_Clean (a @ CHR ''/'' # n) = pre @ n"
proof -
  define rooted where "rooted = (case a of [] \<Rightarrow> False | c # _ \<Rightarrow> c = CHR ''/'')"
  define stk where "stk = foldl (clean_push rooted) [] (split_sep a)"
  define pre where "pre = (if rooted then ''/'' else []) @ (if stk = [] then [] else join_sep (rev stk) @ ''/'')"
  have "filepath_Clean (a @ CHR ''/'' # n) = pre @ n" if n: "simple_name n" for n
  proof -
    have r: "(case a @ CHR ''/'' # n of [] \<Rightarrow> False | c # _ \<Rightarrow> c = CHR ''/'') = rooted"
      using assms by (cases a) (auto simp: rooted_def)
    have s: "foldl (clean_push rooted) [] (split_sep (a @ CHR ''/'' # n)) = n # stk"
      using n by (simp add: split_sep_append split_sep_simple simple_name_def stk_def clean_push_simple)
    have o: "join_sep (rev (n # stk)) = (if stk = [] then n else join_sep (rev stk) @ CHR ''/'' # n)"
      by (simp add: join_sep_snoc)
    have "n \<noteq> []" using n by (simp add: simple_name_def)
    then show ?thesis
      unfolding filepath_Clean_def r Let_def s o pre_def by auto
  qed
  then show ?thesis by blast
qed

lemma filepath_Join_simple: "\<exists>pre. \<forall>n. simple_name n \<longrightarrow> filepath_Join a n = pre @ n"
proof (cases "a = []")
  case True
  then have "\<forall>n. simple_name n \<longrightarrow> filepath_Join a n = [] @ n"
    by (auto simp: filepath_Join_def filepath_Clean_simple simple_name_def)
  then show ?thesis by blast
next
  case False
  then show ?thesis
    using filepath_Clean_snoc [of a] by (simp add: filepath_Join_def)
qed

lemma filepath_Join_inj:
  "simple_name m \<Longrightarrow> simple_name n \<Longrightarrow> filepath_Join a m = filepath_Join a n \<Longrightarrow> m = n"
  using filepath_Join_simple [of a] by auto

lemma slash_not_digit: "\<not> is_digit (CHR ''/'')"
  by (simp add: is_digit_def)

lemma fmt_d_no_slash: "CHR ''/'' \<notin> set (fmt_d i)"
  using dec_digits slash_not_digit by (auto simp: fmt_d_def)

lemma Sprintf_p_simple: "simple_name (Sprintf_p g)"
  using fmt_d_no_slash [of g] by (auto simp: simple_name_def Sprintf_p_def)

lemma Sprintf_p_inj: "Sprintf_p g = Sprintf_p h \<Longrightarrow> g = h"
  by (simp add: Sprintf_p_def fmt_d_inj)

lemma group_dir_inj:
  "filepath_Join pdir (Sprintf_p g) = filepath_Join pdir (Sprintf_p h) \<Longrightarrow> g = h"
  using filepath_Join_inj [OF Sprintf_p_simple Sprintf_p_simple] Sprintf_p_inj by blast

lemma restore_options_simps:
  "Dir (restore_options d pdir g) = filepath_Join pdir (Sprintf_p g)"
  "ValueDir (restore_options d pdir g) = filepath_Join pdir (Sprintf_p g)"
  "SyncWrites (restore_options d pdir g) = True"
  "TableLoadingMode (restore_options d pdir g) = MemoryMap"
  "ValueThreshold (restore_options d pdir g) = 1024"
  "NumVersionsToKeep (restore_options d pdir g) = MaxInt32"
  by (simp_all add: restore_options_def)


section \<open>Properties of \<^verbatim>\<open>runRestore\<close>\<close>

lemma Println_simps [simp]:
  "fs (Println l w) = fs w"
  "events (Println l w) = events w"
  "stderr (Println l w) = stderr w"
  "stdout (Println l w) = stdout w @ [l]"
  by (simp_all add: Println_def)

lemma emit_simps [simp]:
  "fs (emit e w) = fs w"
  "events (emit e w) = events w @ [e]"
  "stderr (emit e w) = stderr w"
  "stdout (emit e w) = stdout w"
  by (simp_all add: emit_def)

lemma restore_fn_events:
  "events (snd (restore_fn eng pdir since r g w)) = events w @
     (let bo = restore_options (DefaultOptions eng) pdir g in
      case OpenManaged eng bo (fs w (Dir bo)) of
        Inl err \<Rightarrow> [EvOpen bo False]
      | Inr db \<Rightarrow> [EvOpen bo True, EvLoad (Dir bo) (fst (db_Load eng r db) = None), EvClose (Dir bo)])"
  by (simp add: restore_fn_def Let_def split: sum.splits prod.splits)

lemma restore_fn_result:
  "fst (restore_fn eng pdir since r g w) =
     (let bo = restore_options (DefaultOptions eng) pdir g in
      case OpenManaged eng bo (fs w (Dir bo)) of
        Inl err \<Rightarrow> Some err
      | Inr db \<Rightarrow> fst (db_Load eng r db))"
  by (simp add: restore_fn_def Let_def split: sum.splits prod.splits)

lemma restore_fn_fs:
  "fs (snd (restore_fn eng pdir since r g w)) =
     (let bo = restore_options (DefaultOptions eng) pdir g in
      case OpenManaged eng bo (fs w (Dir bo)) of
        Inl err \<Rightarrow> fs w
      | Inr db \<Rightarrow> (fs w)(Dir bo := Some (db_Close eng (snd (db_Load eng r db)))))"
  by (simp add: restore_fn_def Let_def split: sum.splits prod.splits)

lemma open_instances_append:
  "open_instances (evs @ evs') = foldl track_open (open_instances evs) evs'"
  by (simp add: open_instances_def)


lemma restore_fn_require_options:
  "ok (restore_options (DefaultOptions eng) pdir g) \<Longrightarrow>
     restore_fn (require_options ok eng) pdir since r g w = restore_fn eng pdir since r g w"
  by (simp add: restore_fn_def require_options_def Let_def split: sum.splits prod.splits)

text \<open>
  C4: the options that the closure hands to \<^verbatim>\<open>OpenManaged\<close> for a group have
  synchronous writes switched on and the number of versions to keep at the largest
  32-bit value, whatever the engine's defaults are. The result of the closure and what
  it leaves in the directory are those of the engine opened with exactly these options;
  an engine that refuses every open without the two settings gives the same run as the
  engine itself; and the one open that the closure makes is recorded with these options.
\<close>

theorem opened_with_sync_writes_and_all_versions:
  "SyncWrites (restore_options (DefaultOptions eng) pdir g) \<and>
   NumVersionsToKeep (restore_options (DefaultOptions eng) pdir g) = 2 ^ 31 - 1 \<and>
   fst (restore_fn eng pdir since r g w) =
     (case OpenManaged eng (restore_options (DefaultOptions eng) pdir g)
             (fs w (Dir (restore_options (DefaultOptions eng) pdir g))) of
        Inl err \<Rightarrow> Some err
      | Inr db \<Rightarrow> fst (db_Load eng r db)) \<and>
   fs (snd (restore_fn eng pdir since r g w)) (Dir (restore_options (DefaultOptions eng) pdir g)) =
     (case OpenManaged eng (restore_options (DefaultOptions eng) pdir g)
             (fs w (Dir (restore_options (DefaultOptions eng) pdir g))) of
        Inl err \<Rightarrow> fs w (Dir (restore_options (DefaultOptions eng) pdir g))
      | Inr db \<Rightarrow> Some (db_Close eng (snd (db_Load eng r db)))) \<and>
   restore_fn (require_options (\<lambda>bo. SyncWrites bo \<and> NumVersionsToKeep bo = 2 ^ 31 - 1) eng)
       pdir since r g w =
     restore_fn eng pdir since r g w \<and>
   (\<forall>e \<in> set (drop (length (events w)) (events (snd (restore_fn eng pdir since r g w)))).
      \<forall>bo ok. e = EvOpen bo ok \<longrightarrow>
        bo = restore_options (DefaultOptions eng) pdir g \<and>
        SyncWrites bo \<and> NumVersionsToKeep bo = 2 ^ 31 - 1) \<and>
   (\<exists>ok. EvOpen (restore_options (DefaultOptions eng) pdir g) ok
      \<in> set (drop (length (events w)) (events (snd (restore_fn eng pdir since r g w)))))"
proof -
  let ?bo = "restore_options (DefaultOptions eng) pdir g"
  have a: "SyncWrites ?bo \<and> NumVersionsToKeep ?bo = 2 ^ 31 - 1"
    by (simp add: restore_options_simps MaxInt32_def)
  have b: "fst (restore_fn eng pdir since r g w) =
     (case OpenManaged eng ?bo (fs w (Dir ?bo)) of
        Inl err \<Rightarrow> Some err | Inr db \<Rightarrow> fst (db_Load eng r db))"
    by (simp add: restore_fn_result Let_def)
  have c: "fs (snd (restore_fn eng pdir since r g w)) (Dir ?bo) =
     (case OpenManaged eng ?bo (fs w (Dir ?bo)) of
        Inl err \<Rightarrow> fs w (Dir ?bo) | Inr db \<Rightarrow> Some (db_Close eng (snd (db_Load eng r db))))"
    by (simp add: restore_fn_fs Let_def split: sum.splits)
  have d: "restore_fn (require_options (\<lambda>bo. SyncWrites bo \<and> NumVersionsToKeep bo = 2 ^ 31 - 1) eng)
       pdir since r g w = restore_fn eng pdir since r g w"
    using a by (rule restore_fn_require_options)
  have e: "\<forall>e \<in> set (drop (length (events w)) (events (snd (restore_fn eng pdir since r g w)))).
      \<forall>bo ok. e = EvOpen bo ok \<longrightarrow> bo = ?bo \<and> SyncWrites bo \<and> NumVersionsToKeep bo = 2 ^ 31 - 1"
    using a by (auto simp: restore_fn_events Let_def split: sum.splits)
  have f: "\<exists>ok. EvOpen ?bo ok
      \<in> set (drop (length (events w)) (events (snd (restore_fn eng pdir since r g w))))"
    by (auto simp: restore_fn_events Let_def split: sum.splits)
  from a b c d e f show ?thesis by blast
qed

theorem opened_with_sync_writes_and_all_versions_witness:
  "EvOpen \<lparr>Dir = ''/d/p1'', ValueDir = ''/d/p1'', SyncWrites = True, TableLoadingMode = MemoryMap,
       ValueThreshold = 1024, NumVersionsToKeep = 2147483647\<rparr> True
     \<in> set (drop (length (events world0)) (events (snd (restore_fn strict_engine ''/d'' 0 [1, 2] 1 world0)))) \<and>
   restore_options (DefaultOptions strict_engine) ''/d'' 1 =
     \<lparr>Dir = ''/d/p1'', ValueDir = ''/d/p1'', SyncWrites = True, TableLoadingMode = MemoryMap,
       ValueThreshold = 1024, NumVersionsToKeep = 2147483647\<rparr> \<and>
   SyncWrites (DefaultOptions strict_engine) = False \<and>
   NumVersionsToKeep (DefaultOptions strict_engine) = 1 \<and>
   OpenManaged strict_engine (DefaultOptions strict_engine) None = Inl (EngineError ''unsafe options'') \<and>
   OpenManaged strict_engine (restore_options (DefaultOptions strict_engine) ''/d'' 1) None = Inr [] \<and>
   fst (restore_fn strict_engine ''/d'' 0 [1, 2] 1 world0) = None \<and>
   fs (snd (restore_fn strict_engine ''/d'' 0 [1, 2] 1 world0)) ''/d/p1'' = Some [1, 2, 99]"
proof -
  let ?bo = "\<lparr>Dir = ''/d/p1'', ValueDir = ''/d/p1'', SyncWrites = True, TableLoadingMode = MemoryMap,
       ValueThreshold = 1024, NumVersionsToKeep = 2147483647\<rparr>"
  have h: "EvOpen ?bo True
     \<in> set (drop (length (events world0)) (events (snd (restore_fn strict_engine ''/d'' 0 [1, 2] 1 world0))))"
    by code_simp
  have bo: "restore_options (DefaultOptions strict_engine) ''/d'' 1 = ?bo"
    by code_simp
  have d1: "SyncWrites (DefaultOptions strict_engine) = False"
    and d2: "NumVersionsToKeep (DefaultOptions strict_engine) = 1"
    and d3: "OpenManaged strict_engine (DefaultOptions strict_engine) None = Inl (EngineError ''unsafe options'')"
    by (simp_all add: strict_engine_def demo_defaults_def MaxInt32_def)
  have op: "OpenManaged strict_engine ?bo (fs world0 (Dir ?bo)) = Inr []"
    by (simp add: strict_engine_def world0_def MaxInt32_def)
  let ?ro = "restore_options (DefaultOptions strict_engine) ''/d'' 1"
  have rhs1: "(case OpenManaged strict_engine ?ro (fs world0 (Dir ?ro)) of
        Inl err \<Rightarrow> Some err | Inr db \<Rightarrow> fst (db_Load strict_engine [1, 2] db)) = None"
    by code_simp
  have rhs2: "(case OpenManaged strict_engine ?ro (fs world0 (Dir ?ro)) of
        Inl err \<Rightarrow> fs world0 (Dir ?ro)
      | Inr db \<Rightarrow> Some (db_Close strict_engine (snd (db_Load strict_engine [1, 2] db)))) = Some [1, 2, 99]"
    by code_simp
  have dir: "Dir ?ro = ''/d/p1''"
    by code_simp
  note t = opened_with_sync_writes_and_all_versions [of strict_engine "''/d''" 1 0 "[1, 2]" world0]
  from t have "fst (restore_fn strict_engine ''/d'' 0 [1, 2] 1 world0) =
      (case OpenManaged strict_engine ?ro (fs world0 (Dir ?ro)) of
        Inl err \<Rightarrow> Some err | Inr db \<Rightarrow> fst (db_Load strict_engine [1, 2] db))"
    by blast
  from this rhs1 have r: "fst (restore_fn strict_engine ''/d'' 0 [1, 2] 1 world0) = None"
    by (rule trans)
  from t have "fs (snd (restore_fn strict_engine ''/d'' 0 [1, 2] 1 world0)) (Dir ?ro) =
      (case OpenManaged strict_engine ?ro (fs world0 (Dir ?ro)) of
        Inl err \<Rightarrow> fs world0 (Dir ?ro)
      | Inr db \<Rightarrow> Some (db_Close strict_engine (snd (db_Load strict_engine [1, 2] db))))"
    by blast
  from this rhs2 have "fs (snd (restore_fn strict_engine ''/d'' 0 [1, 2] 1 world0)) (Dir ?ro) = Some [1, 2, 99]"
    by (rule trans)
  then have f: "fs (snd (restore_fn strict_engine ''/d'' 0 [1, 2] 1 world0)) ''/d/p1'' = Some [1, 2, 99]"
    by (simp only: dir)
  from op have op': "OpenManaged strict_engine (restore_options (DefaultOptions strict_engine) ''/d'' 1) None = Inr []"
    unfolding bo by (simp add: world0_def)
  from h bo d1 d2 d3 op' r f show ?thesis by blast
qed

text \<open>
  C5: the directory of group \<open>g\<close> under the root \<open>pdir\<close> is
  \<^verbatim>\<open>filepath.Join(pdir, "p" + decimal g)\<close>, whatever the engine's defaults: its last
  element is the letter p followed by the decimal digits of \<open>g\<close> with no leading zero,
  the value directory is the same directory, and two different group ids never get the
  same directory under one root.
\<close>

theorem group_directory_deterministic_and_distinct:
  "Dir (restore_options d pdir g) = filepath_Join pdir (CHR ''p'' # fmt_d g) \<and>
   ValueDir (restore_options d pdir g) = Dir (restore_options d pdir g) \<and>
   (\<exists>pre. Dir (restore_options d pdir g) = pre @ CHR ''p'' # fmt_d g) \<and>
   (0 \<le> g \<longrightarrow> fmt_d g = dec (nat g) \<and> list_all is_digit (fmt_d g) \<and>
      nat_of_digits (fmt_d g) = nat g \<and> (0 < g \<longrightarrow> hd (fmt_d g) \<noteq> CHR ''0'')) \<and>
   (g \<noteq> h \<longrightarrow> Dir (restore_options d pdir g) \<noteq> Dir (restore_options d' pdir h))"
proof -
  have a: "Dir (restore_options d pdir g) = filepath_Join pdir (CHR ''p'' # fmt_d g)"
    by (simp add: restore_options_simps Sprintf_p_def)
  have b: "ValueDir (restore_options d pdir g) = Dir (restore_options d pdir g)"
    by (simp add: restore_options_simps)
  have c: "\<exists>pre. Dir (restore_options d pdir g) = pre @ CHR ''p'' # fmt_d g"
    using filepath_Join_simple [of pdir] Sprintf_p_simple [of g]
    by (auto simp: restore_options_simps Sprintf_p_def)
  have e: "fmt_d g = dec (nat g) \<and> list_all is_digit (fmt_d g) \<and>
      nat_of_digits (fmt_d g) = nat g \<and> (0 < g \<longrightarrow> hd (fmt_d g) \<noteq> CHR ''0'')" if "0 \<le> g"
    using that dec_digits [of _ "nat g"] dec_no_leading_zero [of "nat g"]
    by (auto simp: fmt_d_def list_all_iff nat_of_digits_dec)
  have f: "Dir (restore_options d pdir g) \<noteq> Dir (restore_options d' pdir h)" if "g \<noteq> h"
    using that group_dir_inj [of pdir g h] by (auto simp: restore_options_simps)
  from a b c e f show ?thesis by blast
qed

theorem group_directory_deterministic_and_distinct_witness:
  "(0::int) \<le> 2 \<and> (0::int) < 2 \<and> (2::int) \<noteq> 3 \<and>
   Dir (restore_options demo_defaults ''/var/db'' 2) = ''/var/db/p2'' \<and>
   Dir (restore_options demo_defaults ''/var/db'' 2) \<noteq> Dir (restore_options demo_defaults ''/var/db'' 3) \<and>
   hd (fmt_d 2) \<noteq> CHR ''0''"
proof -
  have j: "filepath_Join ''/var/db'' (CHR ''p'' # fmt_d 2) = ''/var/db/p2''"
    by code_simp
  have h: "(0::int) \<le> 2 \<and> (0::int) < 2 \<and> (2::int) \<noteq> 3"
    by simp
  note t = group_directory_deterministic_and_distinct
         [of demo_defaults "''/var/db''" 2 3 demo_defaults]
  from t j have a: "Dir (restore_options demo_defaults ''/var/db'' 2) = ''/var/db/p2''"
    by (elim conjE) (rule trans)
  from t h have b: "Dir (restore_options demo_defaults ''/var/db'' 2) \<noteq>
      Dir (restore_options demo_defaults ''/var/db'' 3)"
    by blast
  from t h have c: "hd (fmt_d 2) \<noteq> CHR ''0''"
    by blast
  from h a b c show ?thesis by blast
qed

text \<open>
  C6, as the code has it: the closure makes no check of its own on the directory. Its
  result is the engine's: the error of \<^verbatim>\<open>OpenManaged\<close> when the open fails, else the
  result of \<^verbatim>\<open>db.Load\<close>; and after a successful open the directory holds what the
  load and the close leave of the database that was opened, whether the directory
  existed or not.
\<close>

theorem replay_result_is_the_engines:
  "fst (restore_fn eng pdir since r g w) =
     (case OpenManaged eng (restore_options (DefaultOptions eng) pdir g)
             (fs w (filepath_Join pdir (Sprintf_p g))) of
        Inl err \<Rightarrow> Some err
      | Inr db \<Rightarrow> fst (db_Load eng r db)) \<and>
   fs (snd (restore_fn eng pdir since r g w)) (filepath_Join pdir (Sprintf_p g)) =
     (case OpenManaged eng (restore_options (DefaultOptions eng) pdir g)
             (fs w (filepath_Join pdir (Sprintf_p g))) of
        Inl err \<Rightarrow> fs w (filepath_Join pdir (Sprintf_p g))
      | Inr db \<Rightarrow> Some (db_Close eng (snd (db_Load eng r db))))"
  by (simp add: restore_fn_result restore_fn_fs Let_def restore_options_simps split: sum.splits)

text \<open>
  C6 as it was stated fails: with two objects of group 1 in one run, the second call
  finds the directory that the first one filled, opens it, succeeds, and adds its
  records to those already there.
\<close>

theorem populated_directory_is_reopened:
  "fst (restore_fn demo_engine ''/d'' 0 [1] 1 world0) = None \<and>
   fs (snd (restore_fn demo_engine ''/d'' 0 [1] 1 world0)) (filepath_Join ''/d'' (Sprintf_p 1)) = Some [1] \<and>
   fst (restore_fn demo_engine ''/d'' 0 [2] 1 (snd (restore_fn demo_engine ''/d'' 0 [1] 1 world0))) = None \<and>
   fs (snd (restore_fn demo_engine ''/d'' 0 [2] 1 (snd (restore_fn demo_engine ''/d'' 0 [1] 1 world0))))
      (filepath_Join ''/d'' (Sprintf_p 1)) = Some [1, 2]"
  by code_simp

text \<open>
  C7: when the open succeeds, the closure applies the engine's close to the database
  that the load leaves, once, after the load and whatever the load returned: the
  directory then holds the closed database, the closure returns the result of the load,
  and the engine calls are the open, the load and the close, in this order. When the
  open fails there is no database: the directories are as before and the error of the
  open is returned. In both cases no database that the closure opened is still open.
\<close>

theorem instance_closed_on_success_and_failure:
  "(\<forall>db. OpenManaged eng (restore_options (DefaultOptions eng) pdir g)
            (fs w (filepath_Join pdir (Sprintf_p g))) = Inr db \<longrightarrow>
      fs (snd (restore_fn eng pdir since r g w)) =
        (fs w)(filepath_Join pdir (Sprintf_p g) := Some (db_Close eng (snd (db_Load eng r db)))) \<and>
      fst (restore_fn eng pdir since r g w) = fst (db_Load eng r db) \<and>
      events (snd (restore_fn eng pdir since r g w)) =
        events w @ [EvOpen (restore_options (DefaultOptions eng) pdir g) True,
                    EvLoad (filepath_Join pdir (Sprintf_p g)) (fst (db_Load eng r db) = None),
                    EvClose (filepath_Join pdir (Sprintf_p g))]) \<and>
   (\<forall>err. OpenManaged eng (restore_options (DefaultOptions eng) pdir g)
            (fs w (filepath_Join pdir (Sprintf_p g))) = Inl err \<longrightarrow>
      fs (snd (restore_fn eng pdir since r g w)) = fs w \<and>
      fst (restore_fn eng pdir since r g w) = Some err \<and>
      events (snd (restore_fn eng pdir since r g w)) =
        events w @ [EvOpen (restore_options (DefaultOptions eng) pdir g) False]) \<and>
   open_instances (events (snd (restore_fn eng pdir since r g w))) = open_instances (events w)"
  by (auto simp: restore_fn_events restore_fn_result restore_fn_fs Let_def open_instances_append
        restore_options_simps split: sum.splits)

theorem instance_closed_on_success_and_failure_witness:
  "OpenManaged strict_engine (restore_options (DefaultOptions strict_engine) ''/d'' 1)
      (fs world0 (filepath_Join ''/d'' (Sprintf_p 1))) = Inr [] \<and>
   db_Load strict_engine [1, 0, 2] [] = (Some (EngineError ''bad record''), [1]) \<and>
   fst (restore_fn strict_engine ''/d'' 0 [1, 0, 2] 1 world0) = Some (EngineError ''bad record'') \<and>
   fs (snd (restore_fn strict_engine ''/d'' 0 [1, 0, 2] 1 world0)) (filepath_Join ''/d'' (Sprintf_p 1)) =
     Some [1, 99] \<and>
   db_Load strict_engine [1, 2] [] = (None, [1, 2]) \<and>
   fst (restore_fn strict_engine ''/d'' 0 [1, 2] 1 world0) = None \<and>
   fs (snd (restore_fn strict_engine ''/d'' 0 [1, 2] 1 world0)) (filepath_Join ''/d'' (Sprintf_p 1)) =
     Some [1, 2, 99] \<and>
   open_instances (events (snd (restore_fn strict_engine ''/d'' 0 [1, 0, 2] 1 world0))) = []"
proof -
  let ?dir = "filepath_Join ''/d'' (Sprintf_p 1)"
  have h: "OpenManaged strict_engine (restore_options (DefaultOptions strict_engine) ''/d'' 1)
      (fs world0 ?dir) = Inr []"
    by (simp add: strict_engine_def world0_def restore_options_simps)
  have l1: "db_Load strict_engine [1, 0, 2] [] = (Some (EngineError ''bad record''), [1])"
    and l2: "db_Load strict_engine [1, 2] [] = (None, [1, 2])"
    and c1: "db_Close strict_engine (snd (db_Load strict_engine [1, 0, 2] [])) = [1, 99]"
    and c2: "db_Close strict_engine (snd (db_Load strict_engine [1, 2] [])) = [1, 2, 99]"
    by (simp_all add: strict_engine_def)
  have e: "events world0 = []" "open_instances [] = []"
    by (simp_all add: world0_def open_instances_def)
  note t1 = instance_closed_on_success_and_failure [of strict_engine "''/d''" 1 world0 0 "[1, 0, 2]"]
  note t2 = instance_closed_on_success_and_failure [of strict_engine "''/d''" 1 world0 0 "[1, 2]"]
  from t1 h have "fs (snd (restore_fn strict_engine ''/d'' 0 [1, 0, 2] 1 world0)) =
        (fs world0)(?dir := Some (db_Close strict_engine (snd (db_Load strict_engine [1, 0, 2] []))))"
    and r1: "fst (restore_fn strict_engine ''/d'' 0 [1, 0, 2] 1 world0) = fst (db_Load strict_engine [1, 0, 2] [])"
    by blast+
  then have f1: "fs (snd (restore_fn strict_engine ''/d'' 0 [1, 0, 2] 1 world0)) ?dir = Some [1, 99]"
    by (simp only: c1 fun_upd_same)
  from t2 h have "fs (snd (restore_fn strict_engine ''/d'' 0 [1, 2] 1 world0)) =
        (fs world0)(?dir := Some (db_Close strict_engine (snd (db_Load strict_engine [1, 2] []))))"
    and r2: "fst (restore_fn strict_engine ''/d'' 0 [1, 2] 1 world0) = fst (db_Load strict_engine [1, 2] [])"
    by blast+
  then have f2: "fs (snd (restore_fn strict_engine ''/d'' 0 [1, 2] 1 world0)) ?dir = Some [1, 2, 99]"
    by (simp only: c2 fun_upd_same)
  from r1 l1 have r1': "fst (restore_fn strict_engine ''/d'' 0 [1, 0, 2] 1 world0) = Some (EngineError ''bad record'')"
    by (simp only: fst_conv)
  from r2 l2 have r2': "fst (restore_fn strict_engine ''/d'' 0 [1, 2] 1 world0) = None"
    by (simp only: fst_conv)
  from t1 e have o: "open_instances (events (snd (restore_fn strict_engine ''/d'' 0 [1, 0, 2] 1 world0))) = []"
    by (elim conjE) simp
  from h l1 r1' f1 l2 r2' f2 o show ?thesis by blast
qed

lemma run_cases:
  "run eng ld opt elapsed w =
     (case runRestore eng ld (opt_pdir opt) (opt_location opt) (opt_since opt)
             (Println (''Writing postings to: '' @ opt_pdir opt)
                (Println (''Restoring backups from: '' @ opt_location opt) w)) of
        (Returns None, w1) \<Rightarrow> (Returns None, Println (''Restore: Time elapsed: '' @ elapsed) w1)
      | (Returns (Some err), w1) \<Rightarrow> (Returns (Some err), w1)
      | (Panics msg, w1) \<Rightarrow> (Panics msg, Println (''Restore: Time elapsed: '' @ elapsed) w1))"
  by (simp add: run_def Let_def split: prod.splits go_result.splits option.splits)

lemma Cmd_Run_cases:
  assumes "runRestore eng ld (opt_pdir opt) (opt_location opt) (opt_since opt)
      (Println (''Writing postings to: '' @ opt_pdir opt)
         (Println (''Restoring backups from: '' @ opt_location opt) w)) = (res, w1)"
  shows "(res = Returns None \<longrightarrow>
       stdout (snd (Cmd_Run eng ld opt elapsed w)) = stdout w1 @ [''Restore: Time elapsed: '' @ elapsed] \<and>
       stderr (snd (Cmd_Run eng ld opt elapsed w)) = stderr w1 \<and>
       fst (Cmd_Run eng ld opt elapsed w) = 0) \<and>
    (\<forall>err. res = Returns (Some err) \<longrightarrow>
       stdout (snd (Cmd_Run eng ld opt elapsed w)) = stdout w1 \<and>
       stderr (snd (Cmd_Run eng ld opt elapsed w)) = stderr w1 @ [ErrorLine err] \<and>
       fst (Cmd_Run eng ld opt elapsed w) = 1) \<and>
    (\<forall>msg. res = Panics msg \<longrightarrow>
       stdout (snd (Cmd_Run eng ld opt elapsed w)) = stdout w1 @ [''Restore: Time elapsed: '' @ elapsed] \<and>
       stderr (snd (Cmd_Run eng ld opt elapsed w)) = stderr w1 @ [PanicLine msg] \<and>
       fst (Cmd_Run eng ld opt elapsed w) = 2)"
  using assms by (auto simp: Cmd_Run_def run_cases)

text \<open>
  C10 fails on the code: in a run in which a panic is raised below \<^verbatim>\<open>runRestore\<close>, the
  run fails, with the panic on standard error and the exit status 2, and yet the
  elapsed-time line is printed, because the deferred function of \<^verbatim>\<open>run\<close> finds its
  named result still nil. The two runs that return behave as the claim says: the line is
  printed after a nil result and is not printed after an error, which goes to standard
  error with the exit status 1.
\<close>

theorem panicking_run_prints_elapsed:
  "fst (Cmd_Run demo_engine load_panics demo_opt ''3s'' world0) = 2 \<and>
   stdout (snd (Cmd_Run demo_engine load_panics demo_opt ''3s'' world0)) =
     [''Restoring backups from: /backups'', ''Writing postings to: /d'',
      ''Restore: Time elapsed: 3s''] \<and>
   stderr (snd (Cmd_Run demo_engine load_panics demo_opt ''3s'' world0)) =
     [PanicLine ''runtime error''] \<and>
   fst (Cmd_Run demo_engine (returning (load_once [1, 2])) demo_opt ''3s'' world0) = 0 \<and>
   stdout (snd (Cmd_Run demo_engine (returning (load_once [1, 2])) demo_opt ''3s'' world0)) =
     [''Restoring backups from: /backups'', ''Writing postings to: /d'',
      ''--- Restoring groupId: 1, since: 0'', ''--- Creating new db: /d/p1'',
      ''Restore: Time elapsed: 3s''] \<and>
   stderr (snd (Cmd_Run demo_engine (returning (load_once [1, 2])) demo_opt ''3s'' world0)) = [] \<and>
   fst (Cmd_Run demo_engine (returning (load_once [1, 0])) demo_opt ''3s'' world0) = 1 \<and>
   stdout (snd (Cmd_Run demo_engine (returning (load_once [1, 0])) demo_opt ''3s'' world0)) =
     [''Restoring backups from: /backups'', ''Writing postings to: /d'',
      ''--- Restoring groupId: 1, since: 0'', ''--- Creating new db: /d/p1''] \<and>
   stderr (snd (Cmd_Run demo_engine (returning (load_once [1, 0])) demo_opt ''3s'' world0)) =
     [ErrorLine (EngineError ''bad record'')]"
  by code_simp

section \<open>Properties of the names, the catalog and the planner\<close>

lemma take_number_dec:
  "\<not> is_digit c \<Longrightarrow> take_number (dec n @ c # rest) = Some (n, c # rest)"
proof -
  assume c: "\<not> is_digit c"
  have d: "\<forall>x \<in> set (dec n). is_digit x"
    using dec_digits by blast
  have "takeWhile is_digit (dec n @ c # rest) = dec n"
    using c d by simp
  moreover have "dropWhile is_digit (dec n @ c # rest) = c # rest"
    using c d by simp
  ultimately show ?thesis
    by (simp add: take_number_def dec_nonempty nat_of_digits_dec)
qed

lemma dot_not_digit: "\<not> is_digit (CHR ''.'')"
  by (simp add: is_digit_def)

lemma parse_format_name: "parse_name (format_name (t, g)) = Some (t, g)"
proof -
  have 1: "take_number (dec t @ CHR ''-'' # ''g'' @ dec g @ ''.backup'') =
      Some (t, CHR ''-'' # ''g'' @ dec g @ ''.backup'')"
    using minus_not_digit by (rule take_number_dec)
  have 2: "take_number (dec g @ CHR ''.'' # ''backup'') = Some (g, CHR ''.'' # ''backup'')"
    using dot_not_digit by (rule take_number_dec)
  show ?thesis
    using 1 2 by (simp add: parse_name_def format_name_def)
qed

text \<open>
  C8: a name that matches the grammar parses to a pair; the canonical name of that pair
  parses to the same pair, so that parsing and formatting again changes nothing more.
\<close>

theorem parse_format_idempotent:
  assumes "parse_name name = Some p"
  shows "parse_name (format_name p) = Some p \<and>
         map_option format_name (parse_name (format_name p)) = map_option format_name (parse_name name)"
  using assms parse_format_name [of "fst p" "snd p"] by simp

theorem parse_format_idempotent_witness:
  "parse_name ''r007-g2.bak'' = Some (7, 2) \<and> format_name (7, 2) = ''r7-g2.backup'' \<and>
   parse_name ''r7-g2.backup'' = Some (7, 2)"
proof -
  have h: "parse_name ''r007-g2.bak'' = Some (7, 2)"
    by code_simp
  have f: "format_name (7, 2) = ''r7-g2.backup''"
    by code_simp
  from parse_format_idempotent [OF h] f have "parse_name ''r7-g2.backup'' = Some (7, 2)"
    by simp
  with h f show ?thesis by blast
qed

lemma parse_objects_Nil: "parse_objects [] = []"
  by (simp add: parse_objects_def)

lemma parse_objects_Cons:
  "parse_objects ((n, r) # listing) =
     (case parse_name n of
        None \<Rightarrow> parse_objects listing
      | Some (t, g) \<Rightarrow> \<lparr>groupID = g, readTimestamp = t, byteStream = r\<rparr> # parse_objects listing)"
  by (simp add: parse_objects_def split: option.splits)

lemma parse_objects_empty_iff:
  "(parse_objects listing = []) = (\<forall>(n, r) \<in> set listing. parse_name n = None)"
  by (induction listing) (auto simp: parse_objects_Nil parse_objects_Cons split: option.splits)

lemma parse_objects_matching:
  "parse_objects (filter (\<lambda>(n, r). parse_name n \<noteq> None) listing) = parse_objects listing"
  by (induction listing) (auto simp: parse_objects_Nil parse_objects_Cons split: option.splits)

lemma enumerate_catalog_keys:
  "enumerate_catalog listing = Inr catalog \<Longrightarrow>
     map fst catalog = sort (remdups (map groupID (parse_objects listing)))"
  by (auto simp: enumerate_catalog_def Let_def comp_def split: if_splits)

lemma enumerate_catalog_distinct:
  "enumerate_catalog listing = Inr catalog \<Longrightarrow> distinct (map fst catalog)"
  by (simp add: enumerate_catalog_keys)

lemma enumerate_catalog_lookup:
  assumes "enumerate_catalog listing = Inr catalog"
  shows "map_of catalog g =
     (if g \<in> groupID ` set (parse_objects listing)
      then Some (sort_key readTimestamp (filter (\<lambda>obj. groupID obj = g) (parse_objects listing)))
      else None)"
proof -
  let ?f = "\<lambda>g. sort_key readTimestamp (filter (\<lambda>obj. groupID obj = g) (parse_objects listing))"
  let ?ks = "sort (remdups (map groupID (parse_objects listing)))"
  have "catalog = map (\<lambda>g. (g, ?f g)) ?ks"
    using assms by (auto simp: enumerate_catalog_def Let_def split: if_splits)
  then have "map_of catalog = (Some \<circ> ?f) |` set ?ks"
    by (simp only: map_of_map_restrict)
  then show ?thesis
    by (simp add: restrict_map_def)
qed

text \<open>
  C3: enumeration fails, and then with a \<open>CatalogError\<close>, exactly when no listed name
  matches the grammar or two parsed objects have the same group id and timestamp. Names
  that do not match have no effect on the result. When it succeeds, every parsed object
  is in the sequence of its group, which holds the group's objects sorted by timestamp.
\<close>

theorem catalog_error_iff_empty_or_duplicate:
  "(enumerate_catalog listing = Inl CatalogError) =
     ((\<forall>(n, r) \<in> set listing. parse_name n = None) \<or>
      (\<exists>i j. i < j \<and> j < length (parse_objects listing) \<and>
         groupID (parse_objects listing ! i) = groupID (parse_objects listing ! j) \<and>
         readTimestamp (parse_objects listing ! i) = readTimestamp (parse_objects listing ! j))) \<and>
   (\<forall>e. enumerate_catalog listing = Inl e \<longrightarrow> e = CatalogError) \<and>
   enumerate_catalog (filter (\<lambda>(n, r). parse_name n \<noteq> None) listing) = enumerate_catalog listing \<and>
   (\<forall>catalog. enumerate_catalog listing = Inr catalog \<longrightarrow>
      (\<forall>obj \<in> set (parse_objects listing).
         \<exists>objs. map_of catalog (groupID obj) = Some objs \<and> obj \<in> set objs \<and>
           sorted (map readTimestamp objs) \<and> distinct (map readTimestamp objs) \<and>
           set objs = {obj' \<in> set (parse_objects listing). groupID obj' = groupID obj}))"
proof -
  let ?objs = "parse_objects listing"
  have dup: "(\<not> distinct (map object_key ?objs)) =
      (\<exists>i j. i < j \<and> j < length ?objs \<and> groupID (?objs ! i) = groupID (?objs ! j) \<and>
         readTimestamp (?objs ! i) = readTimestamp (?objs ! j))"
  proof
    assume "\<not> distinct (map object_key ?objs)"
    then obtain i j where "i < length ?objs" "j < length ?objs" "i \<noteq> j"
        "object_key (?objs ! i) = object_key (?objs ! j)"
      by (auto simp: distinct_conv_nth)
    then have "\<exists>a b. a < b \<and> b < length ?objs \<and> object_key (?objs ! a) = object_key (?objs ! b)"
      by (cases "i < j") (force intro: exI [of _ i] exI [of _ j])+
    then show "\<exists>i j. i < j \<and> j < length ?objs \<and> groupID (?objs ! i) = groupID (?objs ! j) \<and>
         readTimestamp (?objs ! i) = readTimestamp (?objs ! j)"
      by (simp add: object_key_def)
  next
    assume "\<exists>i j. i < j \<and> j < length ?objs \<and> groupID (?objs ! i) = groupID (?objs ! j) \<and>
         readTimestamp (?objs ! i) = readTimestamp (?objs ! j)"
    then obtain i j where "i < j" "j < length ?objs" "object_key (?objs ! i) = object_key (?objs ! j)"
      by (auto simp: object_key_def)
    then have "i < length ?objs \<and> j < length ?objs \<and> i \<noteq> j \<and>
        map object_key ?objs ! i = map object_key ?objs ! j"
      by simp
    then show "\<not> distinct (map object_key ?objs)"
      unfolding distinct_conv_nth length_map by blast
  qed
  have a: "(enumerate_catalog listing = Inl CatalogError) =
     ((\<forall>(n, r) \<in> set listing. parse_name n = None) \<or>
      (\<exists>i j. i < j \<and> j < length ?objs \<and> groupID (?objs ! i) = groupID (?objs ! j) \<and>
         readTimestamp (?objs ! i) = readTimestamp (?objs ! j)))"
    unfolding dup [symmetric] parse_objects_empty_iff [symmetric]
    by (simp add: enumerate_catalog_def Let_def)
  have b: "\<forall>e. enumerate_catalog listing = Inl e \<longrightarrow> e = CatalogError"
    by (auto simp: enumerate_catalog_def Let_def split: if_splits)
  have c: "enumerate_catalog (filter (\<lambda>(n, r). parse_name n \<noteq> None) listing) = enumerate_catalog listing"
    unfolding enumerate_catalog_def parse_objects_matching ..
  have d: "\<exists>objs. map_of catalog (groupID obj) = Some objs \<and> obj \<in> set objs \<and>
           sorted (map readTimestamp objs) \<and> distinct (map readTimestamp objs) \<and>
           set objs = {obj' \<in> set ?objs. groupID obj' = groupID obj}"
    if ok: "enumerate_catalog listing = Inr catalog" and obj: "obj \<in> set ?objs" for catalog obj
  proof -
    let ?grp = "filter (\<lambda>obj'. groupID obj' = groupID obj) ?objs"
    have dist: "distinct (map object_key ?objs)"
      using ok by (auto simp: enumerate_catalog_def Let_def split: if_splits)
    have eq: "map object_key ?grp = map (Pair (groupID obj)) (map readTimestamp ?grp)"
      by (simp add: object_key_def)
    have "distinct (map object_key ?grp)"
      using dist by (rule distinct_map_filter)
    then have "distinct (map (Pair (groupID obj)) (map readTimestamp ?grp))"
      by (simp only: eq)
    then have "distinct (map readTimestamp ?grp)"
      by (auto simp: distinct_map inj_on_def)
    then have "distinct (map readTimestamp (sort_key readTimestamp ?grp))"
      by (simp add: distinct_map)
    moreover have "map_of catalog (groupID obj) = Some (sort_key readTimestamp ?grp)"
      using enumerate_catalog_lookup [OF ok, of "groupID obj"] obj by simp
    ultimately show ?thesis
      using obj by auto
  qed
  from a b c d show ?thesis by blast
qed

theorem catalog_error_iff_empty_or_duplicate_witness:
  "enumerate_catalog demo_listing = Inr demo_catalog \<and>
   (\<exists>objs. map_of demo_catalog 1 = Some objs \<and>
      \<lparr>groupID = 1, readTimestamp = 25, byteStream = [3, 0, 4]\<rparr> \<in> set objs \<and>
      sorted (map readTimestamp objs)) \<and>
   enumerate_catalog [(''r7-g1.backup'', [1::nat]), (''notes.txt'', []), (''r007-g1.bak'', [2])] =
     Inl CatalogError \<and>
   enumerate_catalog [(''notes.txt'', [1::nat])] = Inl CatalogError"
proof -
  let ?o = "\<lparr>groupID = 1, readTimestamp = 25, byteStream = [3, 0, 4::nat]\<rparr>"
  let ?dup = "[(''r7-g1.backup'', [1::nat]), (''notes.txt'', []), (''r007-g1.bak'', [2])]"
  let ?none = "[(''notes.txt'', [1::nat])]"
  have ok: "enumerate_catalog demo_listing = Inr demo_catalog"
    by code_simp
  have mem: "?o \<in> set (parse_objects demo_listing)" "groupID ?o = 1"
    by code_simp+
  from catalog_error_iff_empty_or_duplicate [of demo_listing] ok mem
  have a: "\<exists>objs. map_of demo_catalog 1 = Some objs \<and> ?o \<in> set objs \<and> sorted (map readTimestamp objs)"
    by (metis (no_types, lifting))
  have po: "parse_objects ?dup = [\<lparr>groupID = 1, readTimestamp = 7, byteStream = [1]\<rparr>,
      \<lparr>groupID = 1, readTimestamp = 7, byteStream = [2]\<rparr>]"
    by code_simp
  have "\<exists>i j. i < j \<and> j < length (parse_objects ?dup) \<and>
         groupID (parse_objects ?dup ! i) = groupID (parse_objects ?dup ! j) \<and>
         readTimestamp (parse_objects ?dup ! i) = readTimestamp (parse_objects ?dup ! j)"
    unfolding po by (rule exI [of _ 0], rule exI [of _ 1]) simp
  with catalog_error_iff_empty_or_duplicate [of ?dup]
  have b: "enumerate_catalog ?dup = Inl CatalogError"
    by blast
  have "\<forall>(n, r) \<in> set ?none. parse_name n = None"
    by code_simp
  with catalog_error_iff_empty_or_duplicate [of ?none]
  have c: "enumerate_catalog ?none = Inl CatalogError"
    by blast
  from ok a b c show ?thesis by blast
qed

section \<open>Properties of a run through \<^verbatim>\<open>Load\<close>\<close>

lemma group_dir_eq_iff: "(group_dir pdir g = group_dir pdir h) = (g = h)"
  using group_dir_inj [of pdir "int g" "int h"] by (auto simp: group_dir_def)

lemma filter_sorted_dropWhile:
  "sorted (map f xs) \<Longrightarrow> filter (\<lambda>x. s < f x) xs = dropWhile (\<lambda>x. f x \<le> (s::nat)) xs"
proof (induction xs)
  case Nil
  show ?case by simp
next
  case (Cons x xs)
  show ?case
  proof (cases "f x \<le> s")
    case True
    with Cons show ?thesis by simp
  next
    case False
    with Cons.prems have "\<forall>y \<in> set xs. s < f y" by auto
    then have "filter (\<lambda>x. s < f x) xs = xs" by simp
    with False show ?thesis by simp
  qed
qed

lemma suffix_filter_all:
  assumes "suffix ys xs" and "\<forall>y \<in> set ys. P y"
  shows "suffix ys (filter P xs)"
proof -
  from assms(1) obtain pre where "xs = pre @ ys" by (auto simp: suffix_def)
  with assms(2) have "filter P xs = filter P pre @ ys" by simp
  then show ?thesis by (simp add: suffix_def)
qed

lemma plan_keys: "map fst (plan catalog s) = map fst catalog"
  by (induction catalog) (auto simp: plan_def)

lemma map_of_plan:
  "map_of (plan catalog s) g =
     map_option (filter (\<lambda>obj. s < readTimestamp obj)) (map_of catalog g)"
  by (induction catalog) (auto simp: plan_def)

lemma plan_member:
  "(g, objs) \<in> set catalog \<Longrightarrow> (g, filter (\<lambda>obj. s < readTimestamp obj) objs) \<in> set (plan catalog s)"
  by (force simp: plan_def)

subsection \<open>What one call of the closure touches\<close>

lemma restore_fn_frame:
  "d \<noteq> filepath_Join pdir (Sprintf_p gi) \<Longrightarrow> fs (snd (restore_fn eng pdir s r gi w)) d = fs w d"
  by (simp add: restore_fn_fs Let_def restore_options_simps split: sum.splits)

lemma restore_fn_new_events:
  "\<exists>evs. events (snd (restore_fn eng pdir s r gi w)) = events w @ evs \<and>
     (\<forall>e \<in> set evs. event_dir e = filepath_Join pdir (Sprintf_p gi))"
  by (simp add: restore_fn_events Let_def restore_options_simps split: sum.splits)

lemma restore_fn_local:
  assumes "fs w1 (filepath_Join pdir (Sprintf_p gi)) = fs w2 (filepath_Join pdir (Sprintf_p gi))"
  shows "fst (restore_fn eng pdir s r gi w1) = fst (restore_fn eng pdir s r gi w2) \<and>
         fs (snd (restore_fn eng pdir s r gi w1)) (filepath_Join pdir (Sprintf_p gi)) =
         fs (snd (restore_fn eng pdir s r gi w2)) (filepath_Join pdir (Sprintf_p gi))"
  using assms
  by (simp add: restore_fn_result restore_fn_fs Let_def restore_options_simps split: sum.splits)

subsection \<open>What the replay of one group touches\<close>

lemma replay_Cons:
  "replay fn g (obj # objs) w =
     (if fst (fn (byteStream obj) (int g) w) = None
      then replay fn g objs (snd (fn (byteStream obj) (int g) w))
      else (Some (ReplayError (int g) (readTimestamp obj) (the (fst (fn (byteStream obj) (int g) w)))),
            snd (fn (byteStream obj) (int g) w)))"
  by (cases "fn (byteStream obj) (int g) w") (auto split: option.splits)

declare replay.simps(2) [simp del]

lemma replay_frame:
  "d \<noteq> group_dir pdir g \<Longrightarrow> fs (snd (replay (restore_fn eng pdir s) g objs w)) d = fs w d"
proof (induction objs arbitrary: w)
  case Nil
  show ?case by simp
next
  case (Cons obj objs)
  then show ?case
    by (simp add: replay_Cons restore_fn_frame group_dir_def)
qed

lemma replay_new_events:
  "\<exists>evs. events (snd (replay (restore_fn eng pdir s) g objs w)) = events w @ evs \<and>
     (\<forall>e \<in> set evs. event_dir e = group_dir pdir g)"
proof (induction objs arbitrary: w)
  case Nil
  show ?case by simp
next
  case (Cons obj objs)
  let ?w = "snd (restore_fn eng pdir s (byteStream obj) (int g) w)"
  obtain evs1 where 1: "events ?w = events w @ evs1" "\<forall>e \<in> set evs1. event_dir e = group_dir pdir g"
    using restore_fn_new_events [of eng pdir s "byteStream obj" "int g" w]
    by (auto simp: group_dir_def)
  obtain evs2 where 2: "events (snd (replay (restore_fn eng pdir s) g objs ?w)) = events ?w @ evs2"
      "\<forall>e \<in> set evs2. event_dir e = group_dir pdir g"
    using Cons.IH [of ?w] by blast
  show ?case
  proof (cases "fst (restore_fn eng pdir s (byteStream obj) (int g) w) = None")
    case True
    with 1 2 have "events (snd (replay (restore_fn eng pdir s) g (obj # objs) w)) = events w @ (evs1 @ evs2)
        \<and> (\<forall>e \<in> set (evs1 @ evs2). event_dir e = group_dir pdir g)"
      by (auto simp: replay_Cons)
    then show ?thesis by blast
  next
    case False
    with 1 show ?thesis by (auto simp: replay_Cons)
  qed
qed

lemma replay_local:
  "fs w1 (group_dir pdir g) = fs w2 (group_dir pdir g) \<Longrightarrow>
     fst (replay (restore_fn eng pdir s) g objs w1) = fst (replay (restore_fn eng pdir s) g objs w2) \<and>
     fs (snd (replay (restore_fn eng pdir s) g objs w1)) (group_dir pdir g) =
     fs (snd (replay (restore_fn eng pdir s) g objs w2)) (group_dir pdir g)"
proof (induction objs arbitrary: w1 w2)
  case Nil
  then show ?case by simp
next
  case (Cons obj objs)
  note l = restore_fn_local [of w1 pdir "int g" w2 eng s "byteStream obj"]
  from Cons.prems l have r: "fst (restore_fn eng pdir s (byteStream obj) (int g) w1) =
      fst (restore_fn eng pdir s (byteStream obj) (int g) w2)"
    and f: "fs (snd (restore_fn eng pdir s (byteStream obj) (int g) w1)) (group_dir pdir g) =
      fs (snd (restore_fn eng pdir s (byteStream obj) (int g) w2)) (group_dir pdir g)"
    by (simp_all add: group_dir_def)
  show ?case
    using r f Cons.IH [OF f] by (simp add: replay_Cons)
qed

lemma replay_all_Cons:
  "replay_all fn ((g, objs) # rest) w =
     (if objs = [] then replay_all fn rest w
      else ((int g, fst (replay fn g objs w)) # fst (replay_all fn rest (snd (replay fn g objs w))),
            snd (replay_all fn rest (snd (replay fn g objs w)))))"
  by (simp add: Let_def split: prod.splits)

declare replay_all.simps(2) [simp del]

lemma planned_groups_Cons:
  "planned_groups ((g, objs) # rest) = (if objs = [] then planned_groups rest else g # planned_groups rest)"
  by (simp add: planned_groups_def)

lemma planned_groups_Nil: "planned_groups [] = []"
  by (simp add: planned_groups_def)

lemma planned_groups_subset: "set (planned_groups pl) \<subseteq> fst ` set pl"
  by (auto simp: planned_groups_def)

lemma planned_groups_member:
  "(g, objs) \<in> set pl \<Longrightarrow> objs \<noteq> [] \<Longrightarrow> g \<in> set (planned_groups pl)"
  by (force simp: planned_groups_def)

lemma planned_groups_empty:
  "distinct (map fst pl) \<Longrightarrow> (g, []) \<in> set pl \<Longrightarrow> g \<notin> set (planned_groups pl)"
proof (induction pl)
  case Nil
  then show ?case by simp
next
  case (Cons p pl)
  obtain g' objs where p: "p = (g', objs)" by (cases p)
  show ?case
  proof (cases "g' = g")
    case True
    with Cons.prems p have "objs = []"
      by (auto simp: image_iff)
    moreover from Cons.prems p True have "g \<notin> fst ` set pl" by auto
    ultimately show ?thesis
      using planned_groups_subset [of pl] p by (auto simp: planned_groups_Cons)
  next
    case False
    with Cons p show ?thesis by (auto simp: planned_groups_Cons)
  qed
qed

lemma replay_all_outcomes:
  "map fst (fst (replay_all fn pl w)) = map int (planned_groups pl)"
proof (induction pl arbitrary: w)
  case Nil
  show ?case by (simp add: planned_groups_Nil)
next
  case (Cons p pl)
  obtain g objs where p: "p = (g, objs)" by (cases p)
  show ?case
    unfolding p by (simp add: replay_all_Cons planned_groups_Cons Cons.IH)
qed

lemma replay_all_frame:
  "d \<notin> group_dir pdir ` set (planned_groups pl) \<Longrightarrow>
     fs (snd (replay_all (restore_fn eng pdir s) pl w)) d = fs w d"
proof (induction pl arbitrary: w)
  case Nil
  show ?case by simp
next
  case (Cons p pl)
  obtain g objs where p: "p = (g, objs)" by (cases p)
  show ?case
  proof (cases "objs = []")
    case True
    with Cons p show ?thesis by (simp add: replay_all_Cons planned_groups_Cons)
  next
    case False
    with Cons.prems p have d: "d \<noteq> group_dir pdir g" "d \<notin> group_dir pdir ` set (planned_groups pl)"
      by (auto simp: planned_groups_Cons)
    show ?thesis
      using False d by (simp add: p replay_all_Cons Cons.IH replay_frame)
  qed
qed

lemma replay_all_new_events:
  "\<exists>evs. events (snd (replay_all (restore_fn eng pdir s) pl w)) = events w @ evs \<and>
     (\<forall>e \<in> set evs. event_dir e \<in> group_dir pdir ` set (planned_groups pl))"
proof (induction pl arbitrary: w)
  case Nil
  show ?case by simp
next
  case (Cons p pl)
  obtain g objs where p: "p = (g, objs)" by (cases p)
  show ?case
  proof (cases "objs = []")
    case True
    with Cons.IH [of w] p show ?thesis by (simp add: replay_all_Cons planned_groups_Cons)
  next
    case False
    let ?w = "snd (replay (restore_fn eng pdir s) g objs w)"
    obtain evs1 where 1: "events ?w = events w @ evs1" "\<forall>e \<in> set evs1. event_dir e = group_dir pdir g"
      using replay_new_events [of eng pdir s g objs w] by blast
    obtain evs2 where 2: "events (snd (replay_all (restore_fn eng pdir s) pl ?w)) = events ?w @ evs2"
        "\<forall>e \<in> set evs2. event_dir e \<in> group_dir pdir ` set (planned_groups pl)"
      using Cons.IH [of ?w] by blast
    from 1 2 False have "events (snd (replay_all (restore_fn eng pdir s) (p # pl) w)) = events w @ (evs1 @ evs2)
        \<and> (\<forall>e \<in> set (evs1 @ evs2). event_dir e \<in> group_dir pdir ` set (planned_groups (p # pl)))"
      by (auto simp: p replay_all_Cons planned_groups_Cons)
    then show ?thesis by blast
  qed
qed

lemma replay_all_local:
  assumes "distinct (map fst pl)" and "(H, hobjs) \<in> set pl" and "hobjs \<noteq> []"
    and "fs w1 (group_dir pdir H) = fs w (group_dir pdir H)"
  shows "(int H, fst (replay (restore_fn eng pdir s) H hobjs w1))
           \<in> set (fst (replay_all (restore_fn eng pdir s) pl w)) \<and>
         fs (snd (replay_all (restore_fn eng pdir s) pl w)) (group_dir pdir H) =
         fs (snd (replay (restore_fn eng pdir s) H hobjs w1)) (group_dir pdir H)"
  using assms
proof (induction pl arbitrary: w)
  case Nil
  then show ?case by simp
next
  case (Cons p pl)
  obtain g objs where p: "p = (g, objs)" by (cases p)
  let ?fn = "restore_fn eng pdir s"
  show ?case
  proof (cases "g = H")
    case True
    from Cons.prems(1) p True have notin: "H \<notin> fst ` set pl" by auto
    with Cons.prems(2) p True have objs: "objs = hobjs"
      by (auto simp: image_iff)
    have "group_dir pdir H \<notin> group_dir pdir ` set (planned_groups pl)"
      using notin planned_groups_subset [of pl] by (auto simp: group_dir_eq_iff)
    then have "fs (snd (replay_all ?fn pl (snd (replay ?fn H hobjs w)))) (group_dir pdir H) =
        fs (snd (replay ?fn H hobjs w)) (group_dir pdir H)"
      by (rule replay_all_frame)
    moreover note replay_local [OF Cons.prems(4), of eng s hobjs]
    ultimately show ?thesis
      using Cons.prems(3) by (simp add: p True objs replay_all_Cons)
  next
    case False
    with Cons.prems p have mem: "(H, hobjs) \<in> set pl" and dist: "distinct (map fst pl)"
      by auto
    show ?thesis
    proof (cases "objs = []")
      case True
      with Cons.IH [OF dist mem Cons.prems(3) Cons.prems(4)] show ?thesis
        by (simp add: p replay_all_Cons)
    next
      case nonempty: False
      from False have "group_dir pdir H \<noteq> group_dir pdir g"
        by (simp add: group_dir_eq_iff)
      then have "fs (snd (replay ?fn g objs w)) (group_dir pdir H) = fs w (group_dir pdir H)"
        by (rule replay_frame)
      with Cons.prems(4) have "fs w1 (group_dir pdir H) = fs (snd (replay ?fn g objs w)) (group_dir pdir H)"
        by simp
      from Cons.IH [OF dist mem Cons.prems(3) this] nonempty show ?thesis
        by (simp add: p replay_all_Cons)
    qed
  qed
qed

lemma Load_unfold:
  assumes "resolve location = Inr listing" and "enumerate_catalog listing = Inr catalog"
  shows "Load resolve location s fn w =
     (if list_all (\<lambda>(g, out). out = None) (fst (replay_all fn (plan catalog s) w)) then None
      else Some (RestoreFailed (fst (replay_all fn (plan catalog s) w))),
      snd (replay_all fn (plan catalog s) w))"
  using assms by (simp add: Load_def Let_def split: prod.splits)

text \<open>
  C1: in a catalog with one entry for each group, let \<open>objs\<close> be the objects of group
  \<open>g\<close>, sorted by timestamp. The plan for the watermark \<open>s\<close> gives \<open>g\<close> the objects
  of \<open>objs\<close> with a timestamp above \<open>s\<close>, in order; this is what is left of \<open>objs\<close>
  after its leading objects up to \<open>s\<close>, a suffix of \<open>objs\<close>, and every suffix of
  \<open>objs\<close> with all timestamps above \<open>s\<close> is a suffix of it. When no timestamp of the
  group is above \<open>s\<close> the plan of the group is empty, the run reports no outcome for
  the group, makes no engine call on its directory and leaves the directory as it was.
\<close>

theorem plan_keeps_newer_suffix:
  assumes "distinct (map fst catalog)" and "(g, objs) \<in> set catalog"
    and "sorted (map readTimestamp objs)"
  shows "map_of (plan catalog s) g = Some (filter (\<lambda>obj. s < readTimestamp obj) objs) \<and>
     filter (\<lambda>obj. s < readTimestamp obj) objs = dropWhile (\<lambda>obj. readTimestamp obj \<le> s) objs \<and>
     suffix (filter (\<lambda>obj. s < readTimestamp obj) objs) objs \<and>
     (\<forall>ys. suffix ys objs \<and> (\<forall>obj \<in> set ys. s < readTimestamp obj)
        \<longrightarrow> suffix ys (filter (\<lambda>obj. s < readTimestamp obj) objs)) \<and>
     ((\<forall>obj \<in> set objs. readTimestamp obj \<le> s) \<longrightarrow>
        map_of (plan catalog s) g = Some [] \<and>
        int g \<notin> fst ` set (fst (replay_all (restore_fn eng pdir s) (plan catalog s) w)) \<and>
        (\<forall>e \<in> set (drop (length (events w))
                    (events (snd (replay_all (restore_fn eng pdir s) (plan catalog s) w)))).
           event_dir e \<noteq> group_dir pdir g) \<and>
        fs (snd (replay_all (restore_fn eng pdir s) (plan catalog s) w)) (group_dir pdir g) =
          fs w (group_dir pdir g)) \<and>
     (\<forall>resolve location listing.
        resolve location = Inr listing \<and> enumerate_catalog listing = Inr catalog \<longrightarrow>
        snd (runRestore eng (Load resolve) pdir location s w) =
          snd (replay_all (restore_fn eng pdir s) (plan catalog s) w))"
proof -
  let ?keep = "filter (\<lambda>obj. s < readTimestamp obj) objs"
  let ?fn = "restore_fn eng pdir s"
  have lookup: "map_of (plan catalog s) g = Some ?keep"
    using assms(1,2) by (simp add: map_of_plan)
  have dw: "?keep = dropWhile (\<lambda>obj. readTimestamp obj \<le> s) objs"
    using assms(3) by (rule filter_sorted_dropWhile)
  have suf: "suffix ?keep objs"
    unfolding dw by (rule suffix_dropWhile)
  have longest: "\<forall>ys. suffix ys objs \<and> (\<forall>obj \<in> set ys. s < readTimestamp obj) \<longrightarrow> suffix ys ?keep"
    using suffix_filter_all [of _ objs "\<lambda>obj. s < readTimestamp obj"] by blast
  have skipped: "map_of (plan catalog s) g = Some [] \<and>
        int g \<notin> fst ` set (fst (replay_all ?fn (plan catalog s) w)) \<and>
        (\<forall>e \<in> set (drop (length (events w)) (events (snd (replay_all ?fn (plan catalog s) w)))).
           event_dir e \<noteq> group_dir pdir g) \<and>
        fs (snd (replay_all ?fn (plan catalog s) w)) (group_dir pdir g) = fs w (group_dir pdir g)"
    if old: "\<forall>obj \<in> set objs. readTimestamp obj \<le> s"
  proof -
    from old have empty: "?keep = []"
      by (auto simp: filter_empty_conv)
    have "(g, ?keep) \<in> set (plan catalog s)"
      using assms(2) by (rule plan_member)
    with empty have "(g, []) \<in> set (plan catalog s)"
      by simp
    moreover have "distinct (map fst (plan catalog s))"
      using assms(1) by (simp add: plan_keys)
    ultimately have notin: "g \<notin> set (planned_groups (plan catalog s))"
      by (rule planned_groups_empty [rotated])
    then have dir: "group_dir pdir g \<notin> group_dir pdir ` set (planned_groups (plan catalog s))"
      by (auto simp: group_dir_eq_iff)
    have "fst ` set (fst (replay_all ?fn (plan catalog s) w)) = int ` set (planned_groups (plan catalog s))"
      using replay_all_outcomes [of ?fn "plan catalog s" w]
      by (metis set_map)
    with notin have out: "int g \<notin> fst ` set (fst (replay_all ?fn (plan catalog s) w))"
      by auto
    obtain evs where evs: "events (snd (replay_all ?fn (plan catalog s) w)) = events w @ evs"
        "\<forall>e \<in> set evs. event_dir e \<in> group_dir pdir ` set (planned_groups (plan catalog s))"
      using replay_all_new_events [of eng pdir s "plan catalog s" w] by blast
    with dir have ev: "\<forall>e \<in> set (drop (length (events w)) (events (snd (replay_all ?fn (plan catalog s) w)))).
           event_dir e \<noteq> group_dir pdir g"
      by (metis append_eq_conv_conj)
    have "fs (snd (replay_all ?fn (plan catalog s) w)) (group_dir pdir g) = fs w (group_dir pdir g)"
      using dir by (rule replay_all_frame)
    with lookup empty out ev show ?thesis by simp
  qed
  have run: "\<forall>resolve location listing.
        resolve location = Inr listing \<and> enumerate_catalog listing = Inr catalog \<longrightarrow>
        snd (runRestore eng (Load resolve) pdir location s w) = snd (replay_all ?fn (plan catalog s) w)"
    by (simp add: runRestore_def Load_unfold)
  from lookup dw suf longest skipped run show ?thesis by blast
qed

theorem plan_keeps_newer_suffix_witness:
  "distinct (map fst demo_catalog) \<and>
   (2, [\<lparr>groupID = 2, readTimestamp = 15, byteStream = [5]\<rparr>]) \<in> set demo_catalog \<and>
   sorted (map readTimestamp [\<lparr>groupID = 2, readTimestamp = 15, byteStream = [5::nat]\<rparr>]) \<and>
   list_all (\<lambda>obj. readTimestamp obj \<le> 20) [\<lparr>groupID = 2, readTimestamp = 15, byteStream = [5::nat]\<rparr>] \<and>
   demo_resolve ''/backups'' = Inr demo_listing \<and>
   enumerate_catalog demo_listing = Inr demo_catalog \<and>
   map_of (plan demo_catalog 20) 2 = Some [] \<and>
   fs (snd (runRestore demo_engine (Load demo_resolve) ''/d'' ''/backups'' 20 world0)) (group_dir ''/d'' 2) = None \<and>
   fs (snd (runRestore demo_engine (Load demo_resolve) ''/d'' ''/backups'' 20 world0)) (group_dir ''/d'' 1) = Some [3]"
proof -
  let ?o = "\<lparr>groupID = 2, readTimestamp = 15, byteStream = [5::nat]\<rparr>"
  have h1: "distinct (map fst demo_catalog)"
    by code_simp
  have h2: "(2, [?o]) \<in> set demo_catalog"
    by code_simp
  have h3: "sorted (map readTimestamp [?o])"
    by simp
  have h4: "\<forall>obj \<in> set [?o]. readTimestamp obj \<le> 20"
    by simp
  have h5: "demo_resolve ''/backups'' = Inr demo_listing"
    by (simp add: demo_resolve_def)
  have h6: "enumerate_catalog demo_listing = Inr demo_catalog"
    by code_simp
  have w0: "fs world0 (group_dir ''/d'' 2) = None"
    by (simp add: world0_def)
  note t = plan_keeps_newer_suffix [OF h1 h2 h3, of 20 demo_engine "''/d''" world0]
  from t h4 have c1: "map_of (plan demo_catalog 20) 2 = Some []"
    by blast
  from t h4 have "fs (snd (replay_all (restore_fn demo_engine ''/d'' 20) (plan demo_catalog 20) world0))
      (group_dir ''/d'' 2) = fs world0 (group_dir ''/d'' 2)"
    by blast
  moreover from t h5 h6 have "snd (runRestore demo_engine (Load demo_resolve) ''/d'' ''/backups'' 20 world0) =
      snd (replay_all (restore_fn demo_engine ''/d'' 20) (plan demo_catalog 20) world0)"
    by blast
  ultimately have c2: "fs (snd (runRestore demo_engine (Load demo_resolve) ''/d'' ''/backups'' 20 world0))
      (group_dir ''/d'' 2) = None"
    using w0 by simp
  have c3: "fs (snd (runRestore demo_engine (Load demo_resolve) ''/d'' ''/backups'' 20 world0))
      (group_dir ''/d'' 1) = Some [3]"
    by code_simp
  from h4 have h4': "list_all (\<lambda>obj. readTimestamp obj \<le> 20) [?o]"
    by simp
  from h1 h2 h3 h4' h5 h6 c1 c2 c3 show ?thesis by blast
qed

text \<open>
  C2: in a run whose catalog was enumerated and in which the replay of a group \<open>G\<close>
  failed, the result of \<^verbatim>\<open>runRestore\<close> is an error that lists one outcome for each
  group with a non-empty plan, the failure of \<open>G\<close> among them; and for every group
  \<open>H\<close> of the plan, the outcome listed for \<open>H\<close> and the final content of the
  directory of \<open>H\<close> are those of replaying all of the objects planned for \<open>H\<close> from
  the initial state, with no other group replayed.
\<close>

theorem failure_confined_to_its_group:
  assumes "resolve location = Inr listing" and "enumerate_catalog listing = Inr catalog"
    and "(int G, Some e) \<in> set (fst (replay_all (restore_fn eng pdir s) (plan catalog s) w))"
    and "(H, hobjs) \<in> set (plan catalog s)" and "hobjs \<noteq> []"
  shows "\<exists>outs. fst (runRestore eng (Load resolve) pdir location s w) = Some (RestoreFailed outs) \<and>
     map fst outs = map int (planned_groups (plan catalog s)) \<and> distinct (map fst outs) \<and>
     (int G, Some e) \<in> set outs \<and>
     (int H, fst (replay (restore_fn eng pdir s) H hobjs w)) \<in> set outs \<and>
     fs (snd (runRestore eng (Load resolve) pdir location s w)) (group_dir pdir H) =
       fs (snd (replay (restore_fn eng pdir s) H hobjs w)) (group_dir pdir H)"
proof -
  let ?fn = "restore_fn eng pdir s"
  let ?outs = "fst (replay_all ?fn (plan catalog s) w)"
  have dist: "distinct (map fst (plan catalog s))"
    using enumerate_catalog_distinct [OF assms(2)] by (simp add: plan_keys)
  have "\<not> list_all (\<lambda>(g, out). out = None) ?outs"
    using assms(3) by (auto simp: list_all_iff)
  then have res: "fst (runRestore eng (Load resolve) pdir location s w) = Some (RestoreFailed ?outs)"
    by (simp add: runRestore_def Load_unfold [of resolve location listing catalog, OF assms(1,2)])
  have w': "snd (runRestore eng (Load resolve) pdir location s w) = snd (replay_all ?fn (plan catalog s) w)"
    by (simp add: runRestore_def Load_unfold [of resolve location listing catalog, OF assms(1,2)])
  have keys: "map fst ?outs = map int (planned_groups (plan catalog s))"
    by (rule replay_all_outcomes)
  have "distinct (planned_groups (plan catalog s))"
    using dist unfolding planned_groups_def by (simp add: distinct_map_filter)
  then have dk: "distinct (map fst ?outs)"
    unfolding keys by (simp add: distinct_map inj_on_def)
  note replay_all_local [where pdir = pdir and eng = eng and s = s and w = w and ?w1.0 = w, OF dist assms(4,5) refl]
  with res w' keys dk assms(3) show ?thesis
    by auto
qed

theorem failure_confined_to_its_group_witness:
  "demo_resolve ''/backups'' = Inr demo_listing \<and>
   enumerate_catalog demo_listing = Inr demo_catalog \<and>
   (int 1, Some (ReplayError 1 25 (EngineError ''bad record'')))
      \<in> set (fst (replay_all (restore_fn demo_engine ''/d'' 0) (plan demo_catalog 0) world0)) \<and>
   (2, [\<lparr>groupID = 2, readTimestamp = 15, byteStream = [5]\<rparr>]) \<in> set (plan demo_catalog 0) \<and>
   fst (replay (restore_fn demo_engine ''/d'' 0) 2 [\<lparr>groupID = 2, readTimestamp = 15, byteStream = [5]\<rparr>] world0) = None \<and>
   fst (runRestore demo_engine (Load demo_resolve) ''/d'' ''/backups'' 0 world0) =
     Some (RestoreFailed [(1, Some (ReplayError 1 25 (EngineError ''bad record''))), (2, None)]) \<and>
   fs (snd (runRestore demo_engine (Load demo_resolve) ''/d'' ''/backups'' 0 world0)) (group_dir ''/d'' 2) = Some [5]"
proof -
  let ?o = "\<lparr>groupID = 2, readTimestamp = 15, byteStream = [5::nat]\<rparr>"
  let ?e = "ReplayError 1 25 (EngineError ''bad record'')"
  have h1: "demo_resolve ''/backups'' = Inr demo_listing"
    by (simp add: demo_resolve_def)
  have h2: "enumerate_catalog demo_listing = Inr demo_catalog"
    by code_simp
  have h3: "(int 1, Some ?e)
      \<in> set (fst (replay_all (restore_fn demo_engine ''/d'' 0) (plan demo_catalog 0) world0))"
    by code_simp
  have h4: "(2, [?o]) \<in> set (plan demo_catalog 0)"
    by code_simp
  have h5: "[?o] \<noteq> []"
    by simp
  have alone: "fst (replay (restore_fn demo_engine ''/d'' 0) 2 [?o] world0) = None"
    by code_simp
  have alone_fs: "fs (snd (replay (restore_fn demo_engine ''/d'' 0) 2 [?o] world0)) (group_dir ''/d'' 2) = Some [5]"
    by code_simp
  have report: "fst (runRestore demo_engine (Load demo_resolve) ''/d'' ''/backups'' 0 world0) =
     Some (RestoreFailed [(1, Some ?e), (2, None)])"
    by code_simp
  from failure_confined_to_its_group [of demo_resolve "''/backups''" demo_listing, OF h1 h2 h3 h4 h5] alone_fs
  have c: "fs (snd (runRestore demo_engine (Load demo_resolve) ''/d'' ''/backups'' 0 world0))
      (group_dir ''/d'' 2) = Some [5]"
    by auto
  from h1 h2 h3 h4 alone report c show ?thesis by blast
qed

subsection \<open>Two destination roots\<close>











end
